theory Spec2Isabelle
  imports Main
begin

section \<open>The adjacency-vector binary quadratic model of dimod\<close>

text \<open>
  A shallow embedding of the class template \<open>AdjVectorBQM<V, B>\<close> of
  \<^verbatim>\<open>dimod/include/dimod/adjvectorbqm.h\<close>.

  \<^item> The variable type \<open>V\<close> and \<open>std::size_t\<close> are modelled by \<open>nat\<close>: every index of
    the class is a position in a \<open>std::vector\<close>, and no arithmetic of the class comes
    near the range of \<open>size_t\<close>.
  \<^item> The bias type \<open>B\<close> is a type variable \<open>'b\<close> with \<open>0\<close> (and \<open>+\<close> where the dense
    constructor adds two entries). Equality on \<open>'b\<close> is HOL equality; what a
    floating-point \<open>B\<close> does with NaN or rounding is outside this model.
  \<^item> The single data member \<open>adj\<close>, a vector of pairs (neighbourhood, linear bias), is a
    list of pairs; a neighbourhood is a list of pairs (neighbour index, quadratic bias).
  \<^item> A member function that mutates the object takes the state and returns the new state
    together with its return value.
  \<^item> A member function returns \<open>None\<close> where the C++ has no defined result: an
    \<open>assert\<close> that fails, a subscript outside its vector, \<open>erase\<close> of the end iterator.
\<close>

subsection \<open>Data\<close>

type_synonym 'b neighborhood = "(nat \<times> 'b) list"

record 'b AdjVectorBQM =
  adj :: "('b neighborhood \<times> 'b) list"

subsection \<open>Searching and editing one neighbourhood\<close>

text \<open>
  Modelled from the spec: \<open>utils::comp_v\<close> is declared in \<^verbatim>\<open>dimod/utils.h\<close>, which is
  not among the sources at hand. The specification describes it as "a comparator
  ordering strictly by neighbor index, ignoring bias".
\<close>

definition comp_v :: "nat \<times> 'b \<Rightarrow> nat \<Rightarrow> bool" where
  "comp_v ub v = (fst ub < v)"

text \<open>
  \<open>std::lower_bound(first, last, v, comp)\<close> as the standard library implements it: the
  range is halved until it is empty. \<open>first\<close> is the offset of the left end of the range
  still searched from the beginning of the neighbourhood, \<open>len\<close> its length. Started on
  the whole neighbourhood, the loop keeps \<open>first + len\<close> within it, so the element at
  \<open>middle\<close> always exists.
\<close>

function lower_bound_loop :: "'b neighborhood \<Rightarrow> nat \<Rightarrow> nat \<Rightarrow> nat \<Rightarrow> nat" where
  "lower_bound_loop xs v first len =
     (if 0 < len then
        (let half = len div 2;
             middle = first + half
         in if comp_v (xs ! middle) v
            then lower_bound_loop xs v (middle + 1) (len - half - 1)
            else lower_bound_loop xs v first half)
      else first)"
  by pat_completeness auto
termination
  by (relation "measure (\<lambda>(xs, v, first, len). len)") auto

declare lower_bound_loop.simps [simp del]

definition lower_bound :: "'b neighborhood \<Rightarrow> nat \<Rightarrow> nat" where
  "lower_bound span v = lower_bound_loop span v 0 (length span)"

text \<open>
  The test \<open>!(low == span.second || low->first != v)\<close> that the member functions apply
  to the iterator \<open>low\<close> returned by the search.
\<close>

definition found_at :: "'b neighborhood \<Rightarrow> nat \<Rightarrow> nat \<Rightarrow> bool" where
  "found_at span low v = (\<not> (low = length span \<or> fst (span ! low) \<noteq> v))"

text \<open>\<open>vector::erase(low)\<close>, \<open>vector::emplace(low, v, b)\<close> and \<open>low->second = b\<close>.\<close>

definition erase :: "'a list \<Rightarrow> nat \<Rightarrow> 'a list" where
  "erase xs low = take low xs @ drop (Suc low) xs"

definition emplace :: "'a list \<Rightarrow> nat \<Rightarrow> 'a \<Rightarrow> 'a list" where
  "emplace xs low e = take low xs @ e # drop low xs"

definition assign_second :: "'b neighborhood \<Rightarrow> nat \<Rightarrow> 'b \<Rightarrow> 'b neighborhood" where
  "assign_second xs low b = xs[low := (fst (xs ! low), b)]"

subsection \<open>Constructors\<close>

definition AdjVectorBQM_default :: "'b AdjVectorBQM" where
  "AdjVectorBQM_default = \<lparr>adj = []\<rparr>"

text \<open>
  The copying constructor is a template over the class of its argument, of which it uses
  \<open>num_variables()\<close>, \<open>get_linear(v)\<close> and \<open>neighborhood(v)\<close> only. The argument is
  modelled by these three readers. \<open>adj.resize(n)\<close> on the empty vector gives \<open>n\<close>
  value-initialised records: an empty neighbourhood and the bias \<open>0\<close>. Each round of
  the loop is \<open>set_linear\<close> followed by \<open>insert\<close> of the whole range at \<open>begin()\<close>.
\<close>

record 'b bqm_source =
  src_num_variables :: nat
  src_get_linear :: "nat \<Rightarrow> 'b"
  src_neighborhood :: "nat \<Rightarrow> 'b neighborhood"

definition copy_step :: "'b bqm_source \<Rightarrow> nat \<Rightarrow> ('b neighborhood \<times> 'b) list
    \<Rightarrow> ('b neighborhood \<times> 'b) list" where
  "copy_step bqm v a =
     (let a1 = a[v := (fst (a ! v), src_get_linear bqm v)]
      in a1[v := (src_neighborhood bqm v @ fst (a1 ! v), snd (a1 ! v))])"

definition AdjVectorBQM_copy :: "'b::zero bqm_source \<Rightarrow> 'b AdjVectorBQM" where
  "AdjVectorBQM_copy bqm =
     \<lparr>adj = fold (copy_step bqm) [0..<src_num_variables bqm]
                 (replicate (src_num_variables bqm) ([], 0))\<rparr>"

text \<open>
  The dense constructor. \<open>dense\<close> is the array behind the pointer; the documentation of
  the constructor assumes that it holds \<open>num_variables\<close> squared elements, and the model
  has no result when it holds fewer. The element type \<open>B2\<close> of the array is the type
  variable \<open>'c\<close>; \<open>cast\<close> is the conversion from \<open>B2\<close> to \<open>B\<close> that the two
  assignments \<open>adj[v].second = dense[...]\<close> and \<open>qbias = dense[...] + dense[...]\<close>
  perform (the identity when both types are the same).
\<close>

definition dense_linear :: "('c \<Rightarrow> 'b) \<Rightarrow> 'c list \<Rightarrow> nat \<Rightarrow> nat
    \<Rightarrow> ('b neighborhood \<times> 'b) list \<Rightarrow> ('b neighborhood \<times> 'b) list" where
  "dense_linear cast dense num_variables v a =
     a[v := (fst (a ! v), cast (dense ! (v * (num_variables + 1))))]"

definition dense_quadratic :: "('c::plus \<Rightarrow> 'b::zero) \<Rightarrow> 'c list \<Rightarrow> nat \<Rightarrow> nat \<Rightarrow> nat
    \<Rightarrow> ('b neighborhood \<times> 'b) list \<Rightarrow> ('b neighborhood \<times> 'b) list" where
  "dense_quadratic cast dense num_variables u v a =
     (let qbias = cast (dense ! (u * num_variables + v) + dense ! (v * num_variables + u))
      in if qbias \<noteq> 0
         then (let a1 = a[u := (fst (a ! u) @ [(v, qbias)], snd (a ! u))]
               in a1[v := (fst (a1 ! v) @ [(u, qbias)], snd (a1 ! v))])
         else a)"

definition AdjVectorBQM_dense :: "('c::plus \<Rightarrow> 'b::zero) \<Rightarrow> 'c list \<Rightarrow> nat \<Rightarrow> bool
    \<Rightarrow> 'b AdjVectorBQM option" where
  "AdjVectorBQM_dense cast dense num_variables ignore_diagonal =
     (if length dense < num_variables * num_variables then None
      else
        (let a0 = replicate num_variables ([], 0);
             a1 = (if \<not> ignore_diagonal
                   then fold (dense_linear cast dense num_variables) [0..<num_variables] a0
                   else a0);
             a2 = fold (\<lambda>u. fold (dense_quadratic cast dense num_variables u)
                                  [u + 1..<num_variables])
                       [0..<num_variables] a1
         in Some \<lparr>adj = a2\<rparr>))"

subsection \<open>Member functions\<close>

definition num_variables :: "'b AdjVectorBQM \<Rightarrow> nat" where
  "num_variables s = length (adj s)"

definition add_variable :: "'b::zero AdjVectorBQM \<Rightarrow> 'b AdjVectorBQM \<times> nat" where
  "add_variable s =
     (let s1 = s\<lparr>adj := adj s @ [([], 0)]\<rparr>
      in (s1, length (adj s1) - 1))"

definition degree :: "'b AdjVectorBQM \<Rightarrow> nat \<Rightarrow> nat option" where
  "degree s v = (if v < length (adj s) then Some (length (fst (adj s ! v))) else None)"

definition get_linear :: "'b AdjVectorBQM \<Rightarrow> nat \<Rightarrow> 'b option" where
  "get_linear s v = (if v < length (adj s) then Some (snd (adj s ! v)) else None)"

text \<open>
  The assertions of \<open>neighborhood\<close> and \<open>set_linear\<close> bound the index by
  \<open>invars.size()\<close>, a name the class does not declare; the model bounds it by the size
  of \<open>adj\<close>, the vector that is subscripted.
\<close>

definition neighborhood :: "'b AdjVectorBQM \<Rightarrow> nat \<Rightarrow> 'b neighborhood option" where
  "neighborhood s u = (if u < length (adj s) then Some (fst (adj s ! u)) else None)"

definition get_quadratic :: "'b::zero AdjVectorBQM \<Rightarrow> nat \<Rightarrow> nat \<Rightarrow> ('b \<times> bool) option" where
  "get_quadratic s u v =
     (if \<not> u < length (adj s) \<or> \<not> v < length (adj s) \<or> \<not> u \<noteq> v then None
      else
        (let span = fst (adj s ! u);
             low = lower_bound span v
         in if low = length span \<or> fst (span ! low) \<noteq> v
            then Some (0, False)
            else Some (snd (span ! low), True)))"

definition num_interactions :: "'b AdjVectorBQM \<Rightarrow> nat" where
  "num_interactions s = fold (\<lambda>it count. count + length (fst it)) (adj s) 0 div 2"

text \<open>
  The loop of \<open>pop_variable\<close> walks the neighbourhood of the last variable \<open>v\<close> and
  erases, in the neighbourhood of each neighbour, the element the search for \<open>v\<close>
  returns. \<open>rest\<close> is the part of \<open>v\<close>'s neighbourhood not yet visited. An entry that
  names \<open>v\<close> itself would erase from the vector being walked, and one that names no
  variable would subscript \<open>adj\<close> out of range: the model has no result for either.
\<close>

fun pop_variable_loop :: "('b neighborhood \<times> 'b) list \<Rightarrow> nat \<Rightarrow> 'b neighborhood
    \<Rightarrow> ('b neighborhood \<times> 'b) list option" where
  "pop_variable_loop a v [] = Some a"
| "pop_variable_loop a v (it # rest) =
     (if \<not> fst it < length a \<or> fst it = v then None
      else
        (let span = fst (a ! fst it);
             low = lower_bound span v
         in if low = length span then None
            else pop_variable_loop (a[fst it := (erase span low, snd (a ! fst it))]) v rest))"

definition pop_variable :: "'b AdjVectorBQM \<Rightarrow> ('b AdjVectorBQM \<times> nat) option" where
  "pop_variable s =
     (if \<not> 0 < length (adj s) then None
      else
        (let v = length (adj s) - 1
         in case pop_variable_loop (adj s) v (fst (adj s ! v)) of
              None \<Rightarrow> None
            | Some a \<Rightarrow> Some (s\<lparr>adj := butlast a\<rparr>, length (butlast a))))"

definition remove_interaction :: "'b AdjVectorBQM \<Rightarrow> nat \<Rightarrow> nat
    \<Rightarrow> ('b AdjVectorBQM \<times> bool) option" where
  "remove_interaction s u v =
     (if \<not> u < length (adj s) \<or> \<not> v < length (adj s) then None
      else
        (let span = fst (adj s ! u);
             low = lower_bound span v;
             exists = found_at span low v
         in if exists
            then
              (let a1 = (adj s)[u := (erase span low, snd (adj s ! u))];
                   span2 = fst (a1 ! v);
                   low2 = lower_bound span2 u
               in if found_at span2 low2 u \<noteq> exists then None
                  else Some (s\<lparr>adj := a1[v := (erase span2 low2, snd (a1 ! v))]\<rparr>, exists))
            else Some (s, exists)))"

definition set_linear :: "'b AdjVectorBQM \<Rightarrow> nat \<Rightarrow> 'b \<Rightarrow> 'b AdjVectorBQM option" where
  "set_linear s v b =
     (if \<not> v < length (adj s) then None
      else Some (s\<lparr>adj := (adj s)[v := (fst (adj s ! v), b)]\<rparr>))"

definition set_quadratic :: "'b AdjVectorBQM \<Rightarrow> nat \<Rightarrow> nat \<Rightarrow> 'b
    \<Rightarrow> ('b AdjVectorBQM \<times> bool) option" where
  "set_quadratic s u v b =
     (if \<not> u < length (adj s) \<or> \<not> v < length (adj s) \<or> \<not> u \<noteq> v then None
      else
        (let span = fst (adj s ! u);
             low = lower_bound span v;
             exists = found_at span low v;
             a1 = (adj s)[u := (if exists then assign_second span low b
                                else emplace span low (v, b), snd (adj s ! u))];
             span2 = fst (a1 ! v);
             low2 = lower_bound span2 u
         in if found_at span2 low2 u \<noteq> exists then None
            else Some (s\<lparr>adj := a1[v := (if exists then assign_second span2 low2 b
                                         else emplace span2 low2 (u, b), snd (a1 ! v))]\<rparr>,
                       True)))"

subsection \<open>The invariant and the reachable states\<close>

text \<open>
  A neighbourhood is sorted when its neighbour indices increase strictly from start to
  end.
\<close>

definition nsorted :: "'b neighborhood \<Rightarrow> bool" where
  "nsorted xs = sorted_wrt (<) (map fst xs)"

text \<open>
  The invariant of the class: every neighbourhood is sorted, names only variables that
  exist, never names its own variable, and every entry has a matching entry, with the
  same bias, in the neighbourhood of the variable it names.
\<close>

definition valid :: "'b AdjVectorBQM \<Rightarrow> bool" where
  "valid s = (\<forall>u\<in>set [0..<length (adj s)].
      nsorted (fst (adj s ! u)) \<and>
      (\<forall>e\<in>set (fst (adj s ! u)).
          fst e < length (adj s) \<and> fst e \<noteq> u \<and> (u, snd e) \<in> set (fst (adj s ! fst e))))"

text \<open>An \<open>AdjVectorBQM\<close> as the argument of the copying constructor: the values its readers
  \<open>num_variables\<close>, \<open>get_linear\<close> and \<open>neighborhood\<close> return at the indices the constructor
  passes, which are all below \<open>num_variables\<close>.\<close>

definition source_of :: "'b AdjVectorBQM \<Rightarrow> 'b bqm_source" where
  "source_of s =
     \<lparr>src_num_variables = length (adj s),
      src_get_linear = (\<lambda>v. snd (adj s ! v)),
      src_neighborhood = (\<lambda>v. fst (adj s ! v))\<rparr>"

text \<open>
  The states the class can be in: what a constructor builds, and what a mutating member
  function returns when called on such a state with its preconditions met. The copying
  constructor is applied to an \<open>AdjVectorBQM\<close>; the dense constructor to an array whose
  elements have the bias type, with any conversion.
\<close>

inductive reachable :: "'b::{zero,plus} AdjVectorBQM \<Rightarrow> bool" where
  by_default: "reachable AdjVectorBQM_default"
| by_copy: "reachable src \<Longrightarrow> reachable (AdjVectorBQM_copy (source_of src))"
| by_dense:
    "AdjVectorBQM_dense (cast :: 'b \<Rightarrow> 'b) dense n ignore_diagonal = Some s \<Longrightarrow> reachable s"
| by_add_variable: "reachable s \<Longrightarrow> reachable (fst (add_variable s))"
| by_pop_variable: "reachable s \<Longrightarrow> pop_variable s = Some (s', r) \<Longrightarrow> reachable s'"
| by_remove_interaction:
    "reachable s \<Longrightarrow> remove_interaction s u v = Some (s', found) \<Longrightarrow> reachable s'"
| by_set_linear: "reachable s \<Longrightarrow> set_linear s v b = Some s' \<Longrightarrow> reachable s'"
| by_set_quadratic:
    "reachable s \<Longrightarrow> set_quadratic s u v b = Some (s', applied) \<Longrightarrow> reachable s'"

subsection \<open>Closed forms used in the proofs\<close>

text \<open>The counter of \<open>num_interactions\<close> before it is halved.\<close>

definition total_degree :: "'b AdjVectorBQM \<Rightarrow> nat" where
  "total_degree s = sum_list (map (\<lambda>it. length (fst it)) (adj s))"

text \<open>The sum of \<open>degree(v)\<close> over all variables.\<close>

definition sum_of_degrees :: "'b AdjVectorBQM \<Rightarrow> nat" where
  "sum_of_degrees s = sum_list (map (\<lambda>v. the (degree s v)) [0..<num_variables s])"

text \<open>
  What \<open>set_quadratic\<close> does to one neighbourhood: overwrite the bias of the entry found,
  or emplace a new entry where the search ended.
\<close>

definition set_entry :: "'b neighborhood \<Rightarrow> nat \<Rightarrow> 'b \<Rightarrow> 'b neighborhood" where
  "set_entry xs v b =
     (if found_at xs (lower_bound xs v) v then assign_second xs (lower_bound xs v) b
      else emplace xs (lower_bound xs v) (v, b))"

text \<open>The vector \<open>adj\<close> after \<open>set_quadratic\<close> in a valid state.\<close>

definition set_quadratic_adj :: "('b neighborhood \<times> 'b) list \<Rightarrow> nat \<Rightarrow> nat \<Rightarrow> 'b
    \<Rightarrow> ('b neighborhood \<times> 'b) list" where
  "set_quadratic_adj a u v b =
     a[u := (set_entry (fst (a ! u)) v b, snd (a ! u)),
       v := (set_entry (fst (a ! v)) u b, snd (a ! v))]"

text \<open>The vector \<open>adj\<close> after \<open>remove_interaction\<close> has erased an edge of a valid state.\<close>

definition remove_interaction_adj :: "('b neighborhood \<times> 'b) list \<Rightarrow> nat \<Rightarrow> nat
    \<Rightarrow> ('b neighborhood \<times> 'b) list" where
  "remove_interaction_adj a u v =
     a[u := (filter (\<lambda>e. fst e \<noteq> v) (fst (a ! u)), snd (a ! u)),
       v := (filter (\<lambda>e. fst e \<noteq> u) (fst (a ! v)), snd (a ! v))]"

text \<open>The vector \<open>adj\<close> after \<open>pop_variable\<close> in a valid state.\<close>

definition pop_variable_adj :: "('b neighborhood \<times> 'b) list \<Rightarrow> ('b neighborhood \<times> 'b) list" where
  "pop_variable_adj a =
     map (\<lambda>it. (filter (\<lambda>e. fst e \<noteq> length a - 1) (fst it), snd it)) (butlast a)"

text \<open>The value \<open>qbias\<close> that the dense constructor computes for the pair \<open>u < v\<close>.\<close>

definition dense_qbias :: "('c::plus \<Rightarrow> 'b) \<Rightarrow> 'c list \<Rightarrow> nat \<Rightarrow> nat \<Rightarrow> nat \<Rightarrow> 'b" where
  "dense_qbias cast dense n u v = cast (dense ! (u * n + v) + dense ! (v * n + u))"

text \<open>The entries \<open>(x, f x)\<close> for the indices \<open>lo \<le> x < hi\<close> at which \<open>f\<close> is not zero, in
  increasing order of \<open>x\<close>.\<close>

definition entries :: "(nat \<Rightarrow> 'b::zero) \<Rightarrow> nat \<Rightarrow> nat \<Rightarrow> 'b neighborhood" where
  "entries f lo hi = map (\<lambda>x. (x, f x)) (filter (\<lambda>x. f x \<noteq> 0) [lo..<hi])"

text \<open>The vector \<open>adj\<close> that the dense constructor builds, in closed form.\<close>

definition dense_adj :: "('c::plus \<Rightarrow> 'b::zero) \<Rightarrow> 'c list \<Rightarrow> nat \<Rightarrow> bool
    \<Rightarrow> ('b neighborhood \<times> 'b) list" where
  "dense_adj cast dense n ignore_diagonal =
     map (\<lambda>w. (entries (\<lambda>u. dense_qbias cast dense n u w) 0 w @
                entries (dense_qbias cast dense n w) (Suc w) n,
                if ignore_diagonal then 0 else cast (dense ! (w * (n + 1))))) [0..<n]"

subsection \<open>Two concrete states\<close>

text \<open>A small valid state for the closed instances below: an edge of bias 5 between
  variables 0 and 1, and an isolated variable 2.\<close>

definition example_bqm :: "int AdjVectorBQM" where
  "example_bqm = \<lparr>adj = [([(1, 5)], 7), ([(0, 5)], 0), ([], 0)]\<rparr>"

text \<open>A second valid state: variable 0 has the neighbours 1 and 2.\<close>

definition example_star :: "int AdjVectorBQM" where
  "example_star = \<lparr>adj = [([(1, 5), (2, 4)], 7), ([(0, 5)], 0), ([(0, 4)], 9)]\<rparr>"

section \<open>Properties\<close>

lemma nsorted_nth_mono: "nsorted xs \<Longrightarrow> i \<le> j \<Longrightarrow> j < length xs \<Longrightarrow> fst (xs ! i) \<le> fst (xs ! j)"
proof -
  assume a: "nsorted xs" "i \<le> j" "j < length xs"
  show ?thesis
  proof (cases "i = j")
    case True then show ?thesis by simp
  next
    case False
    with a have "i < j" by simp
    with a have "map fst xs ! i < map fst xs ! j"
      unfolding nsorted_def by (intro sorted_wrt_nth_less) auto
    with a show ?thesis by simp
  qed
qed

lemma lower_bound_loop_spec:
  shows "nsorted xs \<Longrightarrow> first + len \<le> length xs \<Longrightarrow> (\<forall>i<first. fst (xs ! i) < v) \<Longrightarrow>
     (\<forall>i. first + len \<le> i \<longrightarrow> i < length xs \<longrightarrow> v \<le> fst (xs ! i)) \<Longrightarrow>
     first \<le> lower_bound_loop xs v first len \<and> lower_bound_loop xs v first len \<le> first + len \<and>
     (\<forall>i<lower_bound_loop xs v first len. fst (xs ! i) < v) \<and>
     (\<forall>i. lower_bound_loop xs v first len \<le> i \<longrightarrow> i < length xs \<longrightarrow> v \<le> fst (xs ! i))"
proof (induction xs v first len rule: lower_bound_loop.induct)
  case (1 xs v first len)
  note sorted = "1.prems"(1)
  note bounds = "1.prems"(2-4)
  show ?case
  proof (cases "0 < len")
    case False
    then have "lower_bound_loop xs v first len = first"
      by (subst lower_bound_loop.simps) simp
    with bounds False show ?thesis by simp
  next
    case True
    define half where "half = len div 2"
    define middle where "middle = first + half"
    have mid: "middle < first + len" "middle < length xs"
      using True bounds(1) by (auto simp: half_def middle_def)
    show ?thesis
    proof (cases "comp_v (xs ! middle) v")
      case lt: True
      have eq: "lower_bound_loop xs v first len = lower_bound_loop xs v (middle + 1) (len - half - 1)"
        using True lt by (subst lower_bound_loop.simps) (simp add: Let_def half_def middle_def)
      have below: "\<forall>i<middle + 1. fst (xs ! i) < v"
      proof (intro allI impI)
        fix i assume "i < middle + 1"
        then have "i \<le> middle" by simp
        then have "fst (xs ! i) \<le> fst (xs ! middle)"
          by (rule nsorted_nth_mono [OF sorted _ mid(2)])
        with lt show "fst (xs ! i) < v" by (simp add: comp_v_def)
      qed
      have sum: "middle + 1 + (len - half - 1) = first + len"
        using True by (simp add: half_def middle_def) 
      have "middle + 1 \<le> lower_bound_loop xs v (middle + 1) (len - half - 1) \<and>
            lower_bound_loop xs v (middle + 1) (len - half - 1) \<le> middle + 1 + (len - half - 1) \<and>
            (\<forall>i<lower_bound_loop xs v (middle + 1) (len - half - 1). fst (xs ! i) < v) \<and>
            (\<forall>i. lower_bound_loop xs v (middle + 1) (len - half - 1) \<le> i \<longrightarrow> i < length xs \<longrightarrow> v \<le> fst (xs ! i))"
        using "1.IH"(1) [OF True half_def middle_def lt sorted] bounds below sum
        by simp
      then show ?thesis unfolding eq sum by (simp add: middle_def)
    next
      case ge: False
      have eq: "lower_bound_loop xs v first len = lower_bound_loop xs v first half"
        using True ge by (subst lower_bound_loop.simps) (simp add: Let_def half_def middle_def)
      have above: "\<forall>i. first + half \<le> i \<longrightarrow> i < length xs \<longrightarrow> v \<le> fst (xs ! i)"
      proof (intro allI impI)
        fix i assume "first + half \<le> i" "i < length xs"
        then have "fst (xs ! middle) \<le> fst (xs ! i)"
          unfolding middle_def by (intro nsorted_nth_mono [OF sorted])
        with ge show "v \<le> fst (xs ! i)" by (simp add: comp_v_def)
      qed
      have "first \<le> lower_bound_loop xs v first half \<and>
            lower_bound_loop xs v first half \<le> first + half \<and>
            (\<forall>i<lower_bound_loop xs v first half. fst (xs ! i) < v) \<and>
            (\<forall>i. lower_bound_loop xs v first half \<le> i \<longrightarrow> i < length xs \<longrightarrow> v \<le> fst (xs ! i))"
        using "1.IH"(2) [OF True half_def middle_def ge sorted] bounds above mid
        by (simp add: middle_def)
      then show ?thesis unfolding eq using mid by (simp add: middle_def)
    qed
  qed
qed

lemma lower_bound_spec:
  assumes "nsorted xs"
  shows "lower_bound xs v \<le> length xs"
    and "\<forall>i<lower_bound xs v. fst (xs ! i) < v"
    and "\<forall>i. lower_bound xs v \<le> i \<longrightarrow> i < length xs \<longrightarrow> v \<le> fst (xs ! i)"
  using lower_bound_loop_spec [OF assms, of 0 "length xs" v]
  by (simp_all add: lower_bound_def)

lemma nsorted_append:
  "nsorted (ys @ zs) \<longleftrightarrow> nsorted ys \<and> nsorted zs \<and> (\<forall>y\<in>set ys. \<forall>z\<in>set zs. fst y < fst z)"
  by (auto simp: nsorted_def sorted_wrt_append)

lemma nsorted_Cons:
  "nsorted (z # zs) \<longleftrightarrow> nsorted zs \<and> (\<forall>e\<in>set zs. fst z < fst e)"
  by (auto simp: nsorted_def)

lemma lower_bound_cases:
  assumes "nsorted xs"
  obtains (found) ys b zs where "xs = ys @ (v, b) # zs" "lower_bound xs v = length ys"
      "\<forall>e\<in>set ys. fst e < v" "\<forall>e\<in>set zs. v < fst e"
  | (absent) ys zs where "xs = ys @ zs" "lower_bound xs v = length ys"
      "\<forall>e\<in>set ys. fst e < v" "\<forall>e\<in>set zs. v < fst e"
proof -
  define r where "r = lower_bound xs v"
  define ys where "ys = take r xs"
  define zs where "zs = drop r xs"
  have r: "r \<le> length xs" and lo: "\<forall>i<r. fst (xs ! i) < v"
    and hi: "\<forall>i. r \<le> i \<longrightarrow> i < length xs \<longrightarrow> v \<le> fst (xs ! i)"
    using lower_bound_spec [OF assms, of v] by (simp_all add: r_def)
  have split: "xs = ys @ zs" and len: "lower_bound xs v = length ys"
    using r by (simp_all add: ys_def zs_def r_def)
  have ys: "\<forall>e\<in>set ys. fst e < v"
  proof
    fix e assume "e \<in> set ys"
    then obtain i where "i < length ys" "e = ys ! i" by (auto simp: in_set_conv_nth)
    with lo r show "fst e < v" by (simp add: ys_def)
  qed
  have zs: "\<forall>e\<in>set zs. v \<le> fst e"
  proof
    fix e assume "e \<in> set zs"
    then obtain i where "i < length zs" "e = zs ! i" by (auto simp: in_set_conv_nth)
    with hi r show "v \<le> fst e" by (simp add: zs_def)
  qed
  show thesis
  proof (cases zs)
    case Nil
    with split len ys show thesis by (intro absent [of ys zs]) simp_all
  next
    case (Cons z zs')
    have tl: "\<forall>e\<in>set zs'. fst z < fst e"
      using assms split Cons by (simp add: nsorted_append nsorted_Cons)
    show thesis
    proof (cases "fst z = v")
      case True
      with tl have "\<forall>e\<in>set zs'. v < fst e" by simp
      moreover from True split Cons have "xs = ys @ (v, snd z) # zs'" by (cases z) simp
      ultimately show thesis using len ys by (intro found [of ys "snd z" zs'])
    next
      case False
      with zs Cons have "v < fst z" by force
      with tl Cons have "\<forall>e\<in>set zs. v < fst e" by auto
      with split len ys show thesis by (intro absent [of ys zs])
    qed
  qed
qed

lemma found_at_iff:
  assumes "nsorted xs"
  shows "found_at xs (lower_bound xs v) v \<longleftrightarrow> v \<in> fst ` set xs"
  using assms
  by (cases rule: lower_bound_cases [where xs = xs and v = v])
     (force simp: found_at_def nth_append neq_Nil_conv hd_conv_nth)+

lemma lower_bound_lookup:
  assumes "nsorted xs" "(v, b) \<in> set xs"
  shows "lower_bound xs v < length xs \<and> xs ! lower_bound xs v = (v, b)"
  using assms(1)
proof (cases rule: lower_bound_cases [where xs = xs and v = v])
  case (found ys b' zs)
  with assms(2) have "b' = b" by auto
  with found show ?thesis by simp
next
  case (absent ys zs)
  with assms(2) show ?thesis by auto
qed

lemma erase_lower_bound:
  assumes "nsorted xs" "v \<in> fst ` set xs"
  shows "erase xs (lower_bound xs v) = filter (\<lambda>e. fst e \<noteq> v) xs"
  using assms(1)
proof (cases rule: lower_bound_cases [where xs = xs and v = v])
  case (found ys b zs)
  have "filter (\<lambda>e. fst e \<noteq> v) ys = ys" "filter (\<lambda>e. fst e \<noteq> v) zs = zs"
    using found(3,4) by (auto intro!: filter_True)
  with found show ?thesis by (simp add: erase_def)
next
  case (absent ys zs)
  with assms(2) show ?thesis by auto
qed

lemma assign_second_lower_bound:
  assumes "nsorted xs" "v \<in> fst ` set xs"
  shows "assign_second xs (lower_bound xs v) b = map (\<lambda>e. if fst e = v then (v, b) else e) xs"
  using assms(1)
proof (cases rule: lower_bound_cases [where xs = xs and v = v])
  case (found ys b' zs)
  have "map (\<lambda>e. if fst e = v then (v, b) else e) ys = ys"
       "map (\<lambda>e. if fst e = v then (v, b) else e) zs = zs"
    using found(3,4) by (auto intro!: map_idI)
  with found show ?thesis by (simp add: assign_second_def)
next
  case (absent ys zs)
  with assms(2) show ?thesis by auto
qed

lemma emplace_lower_bound:
  assumes "nsorted xs" "v \<notin> fst ` set xs"
  shows "nsorted (emplace xs (lower_bound xs v) (v, b))"
    and "set (emplace xs (lower_bound xs v) (v, b)) = insert (v, b) (set xs)"
    and "length (emplace xs (lower_bound xs v) (v, b)) = Suc (length xs)"
  using assms(1)
proof (cases rule: lower_bound_cases [where xs = xs and v = v])
  case (found ys b' zs)
  with assms(2) show "nsorted (emplace xs (lower_bound xs v) (v, b))" by force
next
  case (absent ys zs)
  with assms(1) show "nsorted (emplace xs (lower_bound xs v) (v, b))"
    by (auto simp: emplace_def nsorted_append nsorted_Cons)
next
  show "set (emplace xs (lower_bound xs v) (v, b)) = insert (v, b) (set xs)"
    using lower_bound_spec(1) [OF assms(1), of v] 
    by (subst (3) append_take_drop_id [of "lower_bound xs v" xs, symmetric], unfold emplace_def set_append) auto
next
  show "length (emplace xs (lower_bound xs v) (v, b)) = Suc (length xs)"
    using lower_bound_spec(1) [OF assms(1), of v] by (simp add: emplace_def)
qed

lemma nsorted_filter: "nsorted xs \<Longrightarrow> nsorted (filter P xs)"
  unfolding nsorted_def sorted_wrt_map by (rule sorted_wrt_filter)

lemma nsorted_map_second:
  "nsorted xs \<Longrightarrow> nsorted (map (\<lambda>e. if fst e = v then (v, b) else e) xs)"
  unfolding nsorted_def by (simp add: comp_def if_distrib cong: if_cong)

lemma nsorted_distinct: "nsorted xs \<Longrightarrow> distinct (map fst xs)"
  unfolding nsorted_def by (simp add: strict_sorted_iff)

lemma map_of_nsorted_iff:
  "nsorted xs \<Longrightarrow> map_of xs v = Some b \<longleftrightarrow> (v, b) \<in> set xs"
  by (simp add: nsorted_distinct)

lemma map_of_dom_iff: "map_of xs v = None \<longleftrightarrow> v \<notin> fst ` set xs"
  by (simp add: map_of_eq_None_iff)

lemma valid_iff:
  "valid s \<longleftrightarrow> (\<forall>u<length (adj s). nsorted (fst (adj s ! u)) \<and>
      (\<forall>v b. map_of (fst (adj s ! u)) v = Some b \<longrightarrow>
          v < length (adj s) \<and> v \<noteq> u \<and> map_of (fst (adj s ! v)) u = Some b))"
  (is "?L \<longleftrightarrow> ?R")
proof
  assume L: ?L
  show ?R
  proof (intro allI impI conjI)
    fix u assume u: "u < length (adj s)"
    with L show su: "nsorted (fst (adj s ! u))" by (simp add: valid_def)
    fix v b assume "map_of (fst (adj s ! u)) v = Some b"
    with su have mem: "(v, b) \<in> set (fst (adj s ! u))" by (simp add: map_of_nsorted_iff)
    from L u have "\<forall>e\<in>set (fst (adj s ! u)).
        fst e < length (adj s) \<and> fst e \<noteq> u \<and> (u, snd e) \<in> set (fst (adj s ! fst e))"
      by (simp add: valid_def)
    from bspec [OF this mem]
    have v: "v < length (adj s)" and vu: "v \<noteq> u" and sym: "(u, b) \<in> set (fst (adj s ! v))"
      by simp_all
    from v show "v < length (adj s)" .
    from vu show "v \<noteq> u" .
    note sym
    moreover from L v have "nsorted (fst (adj s ! v))" by (simp add: valid_def)
    ultimately show "map_of (fst (adj s ! v)) u = Some b" by (simp add: map_of_nsorted_iff)
  qed
next
  assume R: ?R
  show ?L unfolding valid_def
  proof (intro ballI conjI)
    fix u assume "u \<in> set [0..<length (adj s)]"
    then have u: "u < length (adj s)" by simp
    with R show su: "nsorted (fst (adj s ! u))" by simp
    fix e assume "e \<in> set (fst (adj s ! u))"
    with su have m: "map_of (fst (adj s ! u)) (fst e) = Some (snd e)"
      by (simp add: map_of_nsorted_iff)
    with R u show v: "fst e < length (adj s)" and "fst e \<noteq> u" by blast+
    from R u m have "map_of (fst (adj s ! fst e)) u = Some (snd e)" by blast
    then show "(u, snd e) \<in> set (fst (adj s ! fst e))" by (rule map_of_SomeD)
  qed
qed

lemma valid_nsorted: "valid s \<Longrightarrow> u < length (adj s) \<Longrightarrow> nsorted (fst (adj s ! u))"
  by (simp add: valid_iff)

lemma valid_SomeD:
  assumes "valid s" "u < length (adj s)" "map_of (fst (adj s ! u)) v = Some b"
  shows "v < length (adj s)" "v \<noteq> u" "map_of (fst (adj s ! v)) u = Some b"
  using assms unfolding valid_iff by blast+

lemma valid_symmetric:
  assumes "valid s" "u < length (adj s)" "v < length (adj s)"
  shows "map_of (fst (adj s ! u)) v = map_of (fst (adj s ! v)) u"
proof (cases "map_of (fst (adj s ! u)) v")
  case (Some b)
  from valid_SomeD(3) [OF assms(1,2) Some] Some show ?thesis by simp
next
  case None
  show ?thesis
  proof (cases "map_of (fst (adj s ! v)) u")
    case None': None
    with None show ?thesis by simp
  next
    case (Some b)
    from valid_SomeD(3) [OF assms(1,3) Some] None show ?thesis by simp
  qed
qed

lemma valid_no_self: "valid s \<Longrightarrow> u < length (adj s) \<Longrightarrow> map_of (fst (adj s ! u)) u = None"
  using valid_SomeD(2) [of s u u] by (cases "map_of (fst (adj s ! u)) u") auto

lemma validI:
  assumes "\<And>u. u < length (adj s) \<Longrightarrow> nsorted (fst (adj s ! u))"
    and "\<And>u v b. u < length (adj s) \<Longrightarrow> map_of (fst (adj s ! u)) v = Some b \<Longrightarrow> v < length (adj s)"
    and "\<And>u. u < length (adj s) \<Longrightarrow> map_of (fst (adj s ! u)) u = None"
    and "\<And>u v. u < length (adj s) \<Longrightarrow> v < length (adj s) \<Longrightarrow>
           map_of (fst (adj s ! u)) v = map_of (fst (adj s ! v)) u"
  shows "valid s"
  unfolding valid_iff
proof (intro allI impI conjI)
  fix u v b assume u: "u < length (adj s)" and m: "map_of (fst (adj s ! u)) v = Some b"
  from assms(2) [OF u m] show v: "v < length (adj s)" .
  from assms(3) [OF u] m show "v \<noteq> u" by auto
  from assms(4) [OF u v] m show "map_of (fst (adj s ! v)) u = Some b" by simp
qed (rule assms(1))

subsection \<open>get_quadratic\<close>

lemma get_quadratic_map_of:
  assumes "valid s" "u < length (adj s)" "v < length (adj s)" "u \<noteq> v"
  shows "get_quadratic s u v =
     Some (case map_of (fst (adj s ! u)) v of None \<Rightarrow> (0, False) | Some b \<Rightarrow> (b, True))"
proof -
  let ?xs = "fst (adj s ! u)"
  have ns: "nsorted ?xs" using assms by (simp add: valid_nsorted)
  show ?thesis
  proof (cases "map_of ?xs v")
    case None
    then have "\<not> found_at ?xs (lower_bound ?xs v) v"
      by (simp add: found_at_iff [OF ns] map_of_dom_iff)
    with None assms show ?thesis by (simp add: get_quadratic_def found_at_def Let_def)
  next
    case (Some b)
    then have "(v, b) \<in> set ?xs" by (rule map_of_SomeD)
    from lower_bound_lookup [OF ns this] Some assms show ?thesis
      by (simp add: get_quadratic_def Let_def)
  qed
qed

subsection \<open>Editing one neighbourhood\<close>

lemma map_of_filter_key: "map_of (filter (\<lambda>e. fst e \<noteq> v) xs) = (map_of xs)(v := None)"
  by (induction xs) (auto simp: fun_eq_iff)

lemma map_of_map_second_apply:
  "map_of (map (\<lambda>e. if fst e = v then (v, b) else e) xs) x =
     (if x = v \<and> map_of xs v \<noteq> None then Some b else map_of xs x)"
  by (induction xs) auto

lemma map_of_map_second:
  "v \<in> fst ` set xs \<Longrightarrow>
   map_of (map (\<lambda>e. if fst e = v then (v, b) else e) xs) = (map_of xs)(v \<mapsto> b)"
  by (rule ext) (simp add: map_of_map_second_apply map_of_eq_None_iff)

lemma set_entry_nsorted: "nsorted xs \<Longrightarrow> nsorted (set_entry xs v b)"
  by (simp add: set_entry_def found_at_iff assign_second_lower_bound nsorted_map_second
      emplace_lower_bound)

lemma set_entry_map_of:
  assumes "nsorted xs"
  shows "map_of (set_entry xs v b) = (map_of xs)(v \<mapsto> b)"
proof (cases "v \<in> fst ` set xs")
  case True
  with assms show ?thesis
    by (simp add: set_entry_def found_at_iff assign_second_lower_bound map_of_map_second)
next
  case False
  have ns: "nsorted (emplace xs (lower_bound xs v) (v, b))"
    using assms False by (rule emplace_lower_bound)
  have "map_of (emplace xs (lower_bound xs v) (v, b)) x = ((map_of xs)(v \<mapsto> b)) x" for x
  proof (cases "((map_of xs)(v \<mapsto> b)) x")
    case None
    then show ?thesis
      by (auto simp: map_of_eq_None_iff emplace_lower_bound(2) [OF assms False] split: if_splits)
  next
    case (Some c)
    then have "(x, c) \<in> insert (v, b) (set xs)"
      by (auto split: if_splits dest: map_of_SomeD)
    with Some show ?thesis
      by (simp add: map_of_nsorted_iff [OF ns] emplace_lower_bound(2) [OF assms False])
  qed
  with assms False show ?thesis
    by (simp add: set_entry_def found_at_iff fun_eq_iff)
qed

lemma set_entry_length:
  "nsorted xs \<Longrightarrow>
   length (set_entry xs v b) = (if v \<in> fst ` set xs then length xs else Suc (length xs))"
  by (simp add: set_entry_def found_at_iff assign_second_lower_bound emplace_lower_bound)

lemma set_entry_same:
  assumes "nsorted xs" "(v, b) \<in> set xs"
  shows "set_entry xs v b = xs"
proof -
  have key: "v \<in> fst ` set xs" using assms(2) by force
  have "e = (v, b)" if "e \<in> set xs" "fst e = v" for e
  proof -
    from that have "(v, snd e) \<in> set xs" by (metis prod.collapse)
    with assms(1) have "map_of xs v = Some (snd e)" by (simp add: map_of_nsorted_iff)
    moreover from assms have "map_of xs v = Some b" by (simp add: map_of_nsorted_iff)
    ultimately show ?thesis using that(2) by (metis option.inject prod.collapse)
  qed
  then have "map (\<lambda>e. if fst e = v then (v, b) else e) xs = xs"
    by (intro map_idI) auto
  with assms key show ?thesis
    by (simp add: set_entry_def found_at_iff assign_second_lower_bound)
qed

lemma fold_count: "fold (\<lambda>it count. count + length (fst it)) a c = c + sum_list (map (\<lambda>it. length (fst it)) a)"
  by (induction a arbitrary: c) simp_all

lemma num_interactions_total: "num_interactions s = total_degree s div 2"
  by (simp add: num_interactions_def total_degree_def fold_count)

lemma total_degree_update:
  assumes "u < length (adj s)"
  shows "total_degree (s\<lparr>adj := (adj s)[u := (xs, l)]\<rparr>) + length (fst (adj s ! u)) =
         total_degree s + length xs"
proof -
  have "sum_list ((map (\<lambda>it. length (fst it)) (adj s))[u := length xs]) =
        sum_list (map (\<lambda>it. length (fst it)) (adj s)) + length xs
          - map (\<lambda>it. length (fst it)) (adj s) ! u"
    using assms by (intro sum_list_update) simp
  moreover have "map (\<lambda>it. length (fst it)) (adj s) ! u
      \<le> sum_list (map (\<lambda>it. length (fst it)) (adj s))"
    using assms by (intro member_le_sum_list) simp_all
  ultimately show ?thesis using assms by (simp add: total_degree_def map_update)
qed

lemma valid_key_iff:
  assumes "valid s" "u < length (adj s)" "v < length (adj s)"
  shows "v \<in> fst ` set (fst (adj s ! u)) \<longleftrightarrow> u \<in> fst ` set (fst (adj s ! v))"
  using valid_symmetric [OF assms] map_of_dom_iff [of "fst (adj s ! u)" v]
    map_of_dom_iff [of "fst (adj s ! v)" u] by simp

lemma set_quadratic_eq:
  assumes "valid s" "u < length (adj s)" "v < length (adj s)" "u \<noteq> v"
  shows "set_quadratic s u v b = Some (s\<lparr>adj := set_quadratic_adj (adj s) u v b\<rparr>, True)"
proof -
  let ?xu = "fst (adj s ! u)" and ?xv = "fst (adj s ! v)"
  have nu: "nsorted ?xu" and nv: "nsorted ?xv" using assms by (simp_all add: valid_nsorted)
  have ex: "found_at ?xv (lower_bound ?xv u) u = found_at ?xu (lower_bound ?xu v) v"
    using valid_key_iff [OF assms(1-3)] by (simp add: found_at_iff [OF nu] found_at_iff [OF nv])
  from assms(2-4) ex show ?thesis
    by (simp add: set_quadratic_def set_quadratic_adj_def set_entry_def Let_def)
qed

lemma set_quadratic_adj_length [simp]: "length (set_quadratic_adj a u v b) = length a"
  by (simp add: set_quadratic_adj_def)

lemma set_quadratic_adj_snd:
  "w < length a \<Longrightarrow> snd (set_quadratic_adj a u v b ! w) = snd (a ! w)"
  by (cases "w = v"; cases "w = u"; simp add: set_quadratic_adj_def)

lemma set_quadratic_adj_fst:
  "u < length a \<Longrightarrow> v < length a \<Longrightarrow> u \<noteq> v \<Longrightarrow> w < length a \<Longrightarrow>
   fst (set_quadratic_adj a u v b ! w) =
     (if w = u then set_entry (fst (a ! u)) v b
      else if w = v then set_entry (fst (a ! v)) u b else fst (a ! w))"
  by (simp add: set_quadratic_adj_def nth_list_update)

lemma set_quadratic_adj_map_of:
  assumes "valid s" "u < length (adj s)" "v < length (adj s)" "u \<noteq> v" "w < length (adj s)"
  shows "map_of (fst (set_quadratic_adj (adj s) u v b ! w)) =
     (if w = u then (map_of (fst (adj s ! u)))(v \<mapsto> b)
      else if w = v then (map_of (fst (adj s ! v)))(u \<mapsto> b)
      else map_of (fst (adj s ! w)))"
  using assms by (simp add: set_quadratic_adj_fst set_entry_map_of valid_nsorted)

lemma set_quadratic_adj_valid:
  assumes "valid s" "u < length (adj s)" "v < length (adj s)" "u \<noteq> v"
  shows "valid (s\<lparr>adj := set_quadratic_adj (adj s) u v b\<rparr>)"
proof (rule validI)
  let ?s = "s\<lparr>adj := set_quadratic_adj (adj s) u v b\<rparr>"
  note mo = set_quadratic_adj_map_of [OF assms]
  fix w assume "w < length (adj ?s)"
  then have w: "w < length (adj s)" by simp
  from assms w show "nsorted (fst (adj ?s ! w))"
    by (simp add: set_quadratic_adj_fst set_entry_nsorted valid_nsorted)
  from assms w show "map_of (fst (adj ?s ! w)) w = None"
    by (simp add: mo valid_no_self)
  {
    fix x c assume "map_of (fst (adj ?s ! w)) x = Some c"
    with assms w show "x < length (adj ?s)"
      by (auto simp: mo split: if_splits dest: valid_SomeD(1) [OF assms(1)])
  next
    fix x assume "x < length (adj ?s)"
    then have x: "x < length (adj s)" by simp
    from valid_symmetric [OF assms(1) w x] valid_symmetric [OF assms(1) w assms(2)]
      valid_symmetric [OF assms(1) w assms(3)] valid_symmetric [OF assms(1) assms(2) x]
      valid_symmetric [OF assms(1) assms(3) x]
    show "map_of (fst (adj ?s ! w)) x = map_of (fst (adj ?s ! x)) w"
      using assms w x by (simp add: mo)
  }
qed

lemma set_quadratic_adj_total:
  assumes "valid s" "u < length (adj s)" "v < length (adj s)" "u \<noteq> v"
  shows "total_degree (s\<lparr>adj := set_quadratic_adj (adj s) u v b\<rparr>) =
     (if map_of (fst (adj s ! u)) v = None then total_degree s + 2 else total_degree s)"
proof -
  let ?s1 = "s\<lparr>adj := (adj s)[u := (set_entry (fst (adj s ! u)) v b, snd (adj s ! u))]\<rparr>"
  have 1: "total_degree ?s1 + length (fst (adj s ! u)) =
      total_degree s + length (set_entry (fst (adj s ! u)) v b)"
    using assms(2) by (rule total_degree_update)
  have "total_degree (?s1\<lparr>adj := (adj ?s1)[v := (set_entry (fst (adj s ! v)) u b, snd (adj s ! v))]\<rparr>)
      + length (fst (adj ?s1 ! v)) = total_degree ?s1 + length (set_entry (fst (adj s ! v)) u b)"
    using assms(3) by (intro total_degree_update) simp
  then have 2: "total_degree (s\<lparr>adj := set_quadratic_adj (adj s) u v b\<rparr>) + length (fst (adj s ! v))
      = total_degree ?s1 + length (set_entry (fst (adj s ! v)) u b)"
    using assms by (simp add: set_quadratic_adj_def)
  have k: "u \<in> fst ` set (fst (adj s ! v)) \<longleftrightarrow> v \<in> fst ` set (fst (adj s ! u))"
    using valid_key_iff [OF assms(1-3)] by simp
  from 1 2 assms show ?thesis
    by (simp add: set_entry_length valid_nsorted k map_of_dom_iff split: if_splits)
qed

lemma example_bqm_valid: "valid example_bqm"
  by code_simp

lemma example_bqm_size: "num_variables example_bqm = 3"
  by code_simp

lemma get_quadratic_found_iff:
  assumes "valid s" "u < length (adj s)" "v < length (adj s)" "u \<noteq> v"
  shows "map_option snd (get_quadratic s u v) = Some True \<longleftrightarrow> map_of (fst (adj s ! u)) v \<noteq> None"
  by (simp add: get_quadratic_map_of [OF assms] split: option.split)

lemma set_quadratic_adj_get:
  assumes "valid s" "u < length (adj s)" "v < length (adj s)" "u \<noteq> v"
    and "x < length (adj s)" "y < length (adj s)" "x \<noteq> y"
  shows "get_quadratic (s\<lparr>adj := set_quadratic_adj (adj s) u v b\<rparr>) x y =
     (if (x = u \<and> y = v) \<or> (x = v \<and> y = u) then Some (b, True) else get_quadratic s x y)"
proof -
  let ?s = "s\<lparr>adj := set_quadratic_adj (adj s) u v b\<rparr>"
  have v': "valid ?s" using assms(1-4) by (rule set_quadratic_adj_valid)
  have "get_quadratic ?s x y =
      Some (case map_of (fst (adj ?s ! x)) y of None \<Rightarrow> (0, False) | Some b \<Rightarrow> (b, True))"
    using assms(5-7) by (intro get_quadratic_map_of [OF v']) simp_all
  also have "map_of (fst (adj ?s ! x)) =
     (if x = u then (map_of (fst (adj s ! u)))(v \<mapsto> b)
      else if x = v then (map_of (fst (adj s ! v)))(u \<mapsto> b)
      else map_of (fst (adj s ! x)))"
    using set_quadratic_adj_map_of [OF assms(1-5)] by simp
  finally show ?thesis
    using assms by (simp add: get_quadratic_map_of)
qed

lemma set_quadratic_adj_idem:
  assumes "valid s" "u < length (adj s)" "v < length (adj s)" "u \<noteq> v"
  shows "set_quadratic_adj (set_quadratic_adj (adj s) u v b) u v b = set_quadratic_adj (adj s) u v b"
proof -
  let ?a = "set_quadratic_adj (adj s) u v b"
  have nu: "nsorted (set_entry (fst (adj s ! u)) v b)" and nv: "nsorted (set_entry (fst (adj s ! v)) u b)"
    using assms by (simp_all add: set_entry_nsorted valid_nsorted)
  have "map_of (set_entry (fst (adj s ! u)) v b) v = Some b"
       "map_of (set_entry (fst (adj s ! v)) u b) u = Some b"
    using assms by (simp_all add: set_entry_map_of valid_nsorted)
  then have "(v, b) \<in> set (set_entry (fst (adj s ! u)) v b)"
            "(u, b) \<in> set (set_entry (fst (adj s ! v)) u b)"
    by (auto dest: map_of_SomeD)
  then have "set_entry (set_entry (fst (adj s ! u)) v b) v b = set_entry (fst (adj s ! u)) v b"
            "set_entry (set_entry (fst (adj s ! v)) u b) u b = set_entry (fst (adj s ! v)) u b"
    using nu nv by (simp_all add: set_entry_same)
  moreover have "fst (?a ! u) = set_entry (fst (adj s ! u)) v b"
                "fst (?a ! v) = set_entry (fst (adj s ! v)) u b"
    using assms by (simp_all add: set_quadratic_adj_fst)
  ultimately have "(set_entry (fst (?a ! u)) v b, snd (?a ! u)) = ?a ! u"
                  "(set_entry (fst (?a ! v)) u b, snd (?a ! v)) = ?a ! v"
    by (simp_all add: prod_eq_iff)
  then have "set_quadratic_adj ?a u v b = ?a[u := ?a ! u, v := ?a ! v]"
    by (simp only: set_quadratic_adj_def [of ?a])
  then show ?thesis by simp
qed

lemma filter_key_length:
  assumes "nsorted xs" "v \<in> fst ` set xs"
  shows "Suc (length (filter (\<lambda>e. fst e \<noteq> v) xs)) = length xs"
proof -
  from assms(2) obtain b where "(v, b) \<in> set xs" by force
  from lower_bound_lookup [OF assms(1) this] have "lower_bound xs v < length xs" by simp
  then have "Suc (length (erase xs (lower_bound xs v))) = length xs"
    by (simp add: erase_def)
  with assms show ?thesis by (simp add: erase_lower_bound)
qed

lemma remove_interaction_eq:
  assumes "valid s" "u < length (adj s)" "v < length (adj s)"
  shows "remove_interaction s u v =
     (if map_of (fst (adj s ! u)) v \<noteq> None
      then Some (s\<lparr>adj := remove_interaction_adj (adj s) u v\<rparr>, True)
      else Some (s, False))"
proof (cases "map_of (fst (adj s ! u)) v = None")
  case True
  then have "\<not> found_at (fst (adj s ! u)) (lower_bound (fst (adj s ! u)) v) v"
    using assms by (simp add: found_at_iff valid_nsorted map_of_dom_iff)
  with True assms show ?thesis by (simp add: remove_interaction_def Let_def)
next
  case False
  let ?xu = "fst (adj s ! u)" and ?xv = "fst (adj s ! v)"
  have nu: "nsorted ?xu" and nv: "nsorted ?xv" using assms by (simp_all add: valid_nsorted)
  from False have ku: "v \<in> fst ` set ?xu" by (simp add: map_of_dom_iff)
  with valid_key_iff [OF assms] have kv: "u \<in> fst ` set ?xv" by simp
  from False valid_no_self [OF assms(1,2)] have ne: "u \<noteq> v" by auto
  have fu: "found_at ?xu (lower_bound ?xu v) v" using ku by (simp add: found_at_iff [OF nu])
  have fv: "found_at ?xv (lower_bound ?xv u) u" using kv by (simp add: found_at_iff [OF nv])
  from False assms ne fu fv show ?thesis
    by (simp add: remove_interaction_def remove_interaction_adj_def Let_def
        erase_lower_bound [OF nu ku] erase_lower_bound [OF nv kv])
qed

lemma remove_interaction_adj_length [simp]: "length (remove_interaction_adj a u v) = length a"
  by (simp add: remove_interaction_adj_def)

lemma remove_interaction_adj_snd:
  "w < length a \<Longrightarrow> snd (remove_interaction_adj a u v ! w) = snd (a ! w)"
  by (cases "w = v"; cases "w = u"; simp add: remove_interaction_adj_def)

lemma remove_interaction_adj_fst:
  "u < length a \<Longrightarrow> v < length a \<Longrightarrow> u \<noteq> v \<Longrightarrow> w < length a \<Longrightarrow>
   fst (remove_interaction_adj a u v ! w) =
     (if w = u then filter (\<lambda>e. fst e \<noteq> v) (fst (a ! u))
      else if w = v then filter (\<lambda>e. fst e \<noteq> u) (fst (a ! v)) else fst (a ! w))"
  by (simp add: remove_interaction_adj_def nth_list_update)

lemma remove_interaction_adj_map_of:
  assumes "u < length (adj s)" "v < length (adj s)" "u \<noteq> v" "w < length (adj s)"
  shows "map_of (fst (remove_interaction_adj (adj s) u v ! w)) =
     (if w = u then (map_of (fst (adj s ! u)))(v := None)
      else if w = v then (map_of (fst (adj s ! v)))(u := None)
      else map_of (fst (adj s ! w)))"
  using assms by (simp add: remove_interaction_adj_fst map_of_filter_key)

lemma remove_interaction_adj_valid:
  assumes "valid s" "u < length (adj s)" "v < length (adj s)" "u \<noteq> v"
  shows "valid (s\<lparr>adj := remove_interaction_adj (adj s) u v\<rparr>)"
proof (rule validI)
  let ?s = "s\<lparr>adj := remove_interaction_adj (adj s) u v\<rparr>"
  note mo = remove_interaction_adj_map_of [OF assms(2-4)]
  fix w assume "w < length (adj ?s)"
  then have w: "w < length (adj s)" by simp
  from assms w show "nsorted (fst (adj ?s ! w))"
    by (simp add: remove_interaction_adj_fst nsorted_filter valid_nsorted)
  from assms w show "map_of (fst (adj ?s ! w)) w = None"
    by (simp add: mo valid_no_self)
  {
    fix x c assume "map_of (fst (adj ?s ! w)) x = Some c"
    with assms w show "x < length (adj ?s)"
      by (auto simp: mo split: if_splits dest: valid_SomeD(1) [OF assms(1)])
  next
    fix x assume "x < length (adj ?s)"
    then have x: "x < length (adj s)" by simp
    from valid_symmetric [OF assms(1) w x] valid_symmetric [OF assms(1) w assms(2)]
      valid_symmetric [OF assms(1) w assms(3)] valid_symmetric [OF assms(1) assms(2) x]
      valid_symmetric [OF assms(1) assms(3) x]
    show "map_of (fst (adj ?s ! w)) x = map_of (fst (adj ?s ! x)) w"
      using assms w x by (simp add: mo)
  }
qed

lemma remove_interaction_adj_total:
  assumes "valid s" "u < length (adj s)" "v < length (adj s)" "map_of (fst (adj s ! u)) v \<noteq> None"
  shows "total_degree (s\<lparr>adj := remove_interaction_adj (adj s) u v\<rparr>) + 2 = total_degree s"
proof -
  let ?fu = "filter (\<lambda>e. fst e \<noteq> v) (fst (adj s ! u))"
  let ?fv = "filter (\<lambda>e. fst e \<noteq> u) (fst (adj s ! v))"
  let ?s1 = "s\<lparr>adj := (adj s)[u := (?fu, snd (adj s ! u))]\<rparr>"
  from assms(4) valid_no_self [OF assms(1,2)] have ne: "u \<noteq> v" by auto
  from assms(4) have ku: "v \<in> fst ` set (fst (adj s ! u))" by (simp add: map_of_dom_iff)
  with valid_key_iff [OF assms(1-3)] have kv: "u \<in> fst ` set (fst (adj s ! v))" by simp
  have lu: "Suc (length ?fu) = length (fst (adj s ! u))"
    using assms ku by (intro filter_key_length) (simp_all add: valid_nsorted)
  have lv: "Suc (length ?fv) = length (fst (adj s ! v))"
    using assms kv by (intro filter_key_length) (simp_all add: valid_nsorted)
  have 1: "total_degree ?s1 + length (fst (adj s ! u)) = total_degree s + length ?fu"
    using assms(2) by (rule total_degree_update)
  have "total_degree (?s1\<lparr>adj := (adj ?s1)[v := (?fv, snd (adj s ! v))]\<rparr>)
      + length (fst (adj ?s1 ! v)) = total_degree ?s1 + length ?fv"
    using assms(3) by (intro total_degree_update) simp
  then have 2: "total_degree (s\<lparr>adj := remove_interaction_adj (adj s) u v\<rparr>)
      + length (fst (adj s ! v)) = total_degree ?s1 + length ?fv"
    using assms ne by (simp add: remove_interaction_adj_def)
  from 1 2 lu lv show ?thesis by arith
qed

lemma remove_interaction_adj_get:
  assumes "valid s" "u < length (adj s)" "v < length (adj s)" "u \<noteq> v"
    and "x < length (adj s)" "y < length (adj s)" "x \<noteq> y"
  shows "get_quadratic (s\<lparr>adj := remove_interaction_adj (adj s) u v\<rparr>) x y =
     (if (x = u \<and> y = v) \<or> (x = v \<and> y = u) then Some (0, False) else get_quadratic s x y)"
proof -
  let ?s = "s\<lparr>adj := remove_interaction_adj (adj s) u v\<rparr>"
  have v': "valid ?s" using assms(1-4) by (rule remove_interaction_adj_valid)
  have "get_quadratic ?s x y =
      Some (case map_of (fst (adj ?s ! x)) y of None \<Rightarrow> (0, False) | Some b \<Rightarrow> (b, True))"
    using assms(5-7) by (intro get_quadratic_map_of [OF v']) simp_all
  also have "map_of (fst (adj ?s ! x)) =
     (if x = u then (map_of (fst (adj s ! u)))(v := None)
      else if x = v then (map_of (fst (adj s ! v)))(u := None)
      else map_of (fst (adj s ! x)))"
    using remove_interaction_adj_map_of [OF assms(2-5)] by simp
  finally show ?thesis
    using assms by (simp add: get_quadratic_map_of)
qed

lemma example_star_valid: "valid example_star"
  by code_simp

lemma example_star_size: "num_variables example_star = 3"
  by code_simp

lemma pop_variable_loop_spec:
  "distinct (map fst rest) \<Longrightarrow>
   (\<forall>e\<in>set rest. fst e < length a \<and> fst e \<noteq> v \<and> nsorted (fst (a ! fst e)) \<and>
      v \<in> fst ` set (fst (a ! fst e))) \<Longrightarrow>
   pop_variable_loop a v rest =
     Some (map (\<lambda>w. if w \<in> fst ` set rest
                      then (filter (\<lambda>e. fst e \<noteq> v) (fst (a ! w)), snd (a ! w))
                      else a ! w) [0..<length a])"
proof (induction rest arbitrary: a)
  case Nil
  show ?case by (simp add: map_nth)
next
  case (Cons it rest)
  let ?w = "fst it"
  let ?span = "fst (a ! ?w)"
  let ?a1 = "a[?w := (filter (\<lambda>e. fst e \<noteq> v) ?span, snd (a ! ?w))]"
  from Cons.prems have w: "?w < length a" "?w \<noteq> v" "nsorted ?span" "v \<in> fst ` set ?span"
    by simp_all
  from w(4) obtain b where "(v, b) \<in> set ?span" by force
  from lower_bound_lookup [OF w(3) this] have low: "lower_bound ?span v \<noteq> length ?span" by simp
  have step: "pop_variable_loop a v (it # rest) = pop_variable_loop ?a1 v rest"
    using w low by (simp add: Let_def erase_lower_bound [OF w(3,4)])
  have fresh: "?w \<notin> fst ` set rest" using Cons.prems(1) by simp
  have d: "distinct (map fst rest)" using Cons.prems(1) by simp
  have p: "\<forall>e\<in>set rest. fst e < length ?a1 \<and> fst e \<noteq> v \<and> nsorted (fst (?a1 ! fst e)) \<and>
      v \<in> fst ` set (fst (?a1 ! fst e))"
  proof
    fix e assume e: "e \<in> set rest"
    with fresh have "fst e \<noteq> ?w" by (metis imageI)
    with Cons.prems(2) e show "fst e < length ?a1 \<and> fst e \<noteq> v \<and> nsorted (fst (?a1 ! fst e)) \<and>
      v \<in> fst ` set (fst (?a1 ! fst e))" by simp
  qed
  have "map (\<lambda>x. if x \<in> fst ` set rest
                  then (filter (\<lambda>e. fst e \<noteq> v) (fst (?a1 ! x)), snd (?a1 ! x))
                  else ?a1 ! x) [0..<length ?a1] =
        map (\<lambda>x. if x \<in> fst ` set (it # rest)
                  then (filter (\<lambda>e. fst e \<noteq> v) (fst (a ! x)), snd (a ! x))
                  else a ! x) [0..<length a]"
    using fresh w(1) by (auto simp: nth_list_update)
  with Cons.IH [OF d p] step show ?case by simp
qed

lemma pop_variable_eq:
  assumes "valid s" "0 < length (adj s)"
  shows "pop_variable s = Some (s\<lparr>adj := pop_variable_adj (adj s)\<rparr>, length (adj s) - 1)"
proof -
  let ?a = "adj s"
  let ?v = "length ?a - 1"
  let ?rest = "fst (?a ! ?v)"
  have v: "?v < length ?a" using assms(2) by simp
  have ns: "nsorted ?rest" using assms(1) v by (rule valid_nsorted)
  have d: "distinct (map fst ?rest)" using ns by (rule nsorted_distinct)
  have mem: "w \<in> fst ` set ?rest \<longleftrightarrow> map_of ?rest w \<noteq> None" for w
    by (simp add: map_of_dom_iff)
  have p: "\<forall>e\<in>set ?rest. fst e < length ?a \<and> fst e \<noteq> ?v \<and> nsorted (fst (?a ! fst e)) \<and>
      ?v \<in> fst ` set (fst (?a ! fst e))"
  proof
    fix e assume "e \<in> set ?rest"
    with ns have m: "map_of ?rest (fst e) = Some (snd e)" by (simp add: map_of_nsorted_iff)
    note D = valid_SomeD [OF assms(1) v m]
    from D(3) have "?v \<in> fst ` set (fst (?a ! fst e))" by (metis map_of_dom_iff option.distinct(1))
    with D(1,2) valid_nsorted [OF assms(1) D(1)]
    show "fst e < length ?a \<and> fst e \<noteq> ?v \<and> nsorted (fst (?a ! fst e)) \<and>
      ?v \<in> fst ` set (fst (?a ! fst e))" by simp
  qed
  have "butlast (map (\<lambda>w. if w \<in> fst ` set ?rest
                      then (filter (\<lambda>e. fst e \<noteq> ?v) (fst (?a ! w)), snd (?a ! w))
                      else ?a ! w) [0..<length ?a]) = pop_variable_adj ?a"
  proof (rule nth_equalityI)
    show "length (butlast (map (\<lambda>w. if w \<in> fst ` set ?rest
                      then (filter (\<lambda>e. fst e \<noteq> ?v) (fst (?a ! w)), snd (?a ! w))
                      else ?a ! w) [0..<length ?a])) = length (pop_variable_adj ?a)"
      by (simp add: pop_variable_adj_def)
  next
    fix i assume "i < length (butlast (map (\<lambda>w. if w \<in> fst ` set ?rest
                      then (filter (\<lambda>e. fst e \<noteq> ?v) (fst (?a ! w)), snd (?a ! w))
                      else ?a ! w) [0..<length ?a]))"
    then have i: "i < length ?a - 1" by simp
    then have i': "i < length ?a" by simp
    have "filter (\<lambda>e. fst e \<noteq> ?v) (fst (?a ! i)) = fst (?a ! i)" if "i \<notin> fst ` set ?rest"
    proof -
      from that have "map_of ?rest i = None" by (simp add: map_of_dom_iff)
      with valid_symmetric [OF assms(1) i' v] have "map_of (fst (?a ! i)) ?v = None" by simp
      then have "?v \<notin> fst ` set (fst (?a ! i))" by (simp add: map_of_dom_iff)
      then show ?thesis by (intro filter_True) force
    qed
    with i i' show "butlast (map (\<lambda>w. if w \<in> fst ` set ?rest
                      then (filter (\<lambda>e. fst e \<noteq> ?v) (fst (?a ! w)), snd (?a ! w))
                      else ?a ! w) [0..<length ?a]) ! i = pop_variable_adj ?a ! i"
      by (simp add: pop_variable_adj_def nth_butlast prod_eq_iff)
  qed
  with pop_variable_loop_spec [OF d p] assms(2) show ?thesis
    by (simp add: pop_variable_def Let_def pop_variable_adj_def)
qed

lemma pop_variable_adj_length [simp]: "length (pop_variable_adj a) = length a - 1"
  by (simp add: pop_variable_adj_def)

lemma pop_variable_adj_nth:
  "w < length a - 1 \<Longrightarrow>
   pop_variable_adj a ! w = (filter (\<lambda>e. fst e \<noteq> length a - 1) (fst (a ! w)), snd (a ! w))"
  by (simp add: pop_variable_adj_def nth_butlast)

lemma pop_variable_adj_map_of:
  "w < length a - 1 \<Longrightarrow>
   map_of (fst (pop_variable_adj a ! w)) = (map_of (fst (a ! w)))(length a - 1 := None)"
  by (simp add: pop_variable_adj_nth map_of_filter_key)

lemma pop_variable_adj_valid:
  assumes "valid s"
  shows "valid (s\<lparr>adj := pop_variable_adj (adj s)\<rparr>)"
proof (rule validI)
  let ?s = "s\<lparr>adj := pop_variable_adj (adj s)\<rparr>"
  fix w assume "w < length (adj ?s)"
  then have w: "w < length (adj s) - 1" and w': "w < length (adj s)" by simp_all
  from assms w w' show "nsorted (fst (adj ?s ! w))"
    by (simp add: pop_variable_adj_nth nsorted_filter valid_nsorted)
  from assms w w' show "map_of (fst (adj ?s ! w)) w = None"
    by (simp add: pop_variable_adj_map_of valid_no_self)
  {
    fix x c assume "map_of (fst (adj ?s ! w)) x = Some c"
    then have "x \<noteq> length (adj s) - 1" "map_of (fst (adj s ! w)) x = Some c"
      using w by (simp_all add: pop_variable_adj_map_of split: if_splits)
    with valid_SomeD(1) [OF assms w' this(2)] show "x < length (adj ?s)" by simp
  next
    fix x assume "x < length (adj ?s)"
    then have x: "x < length (adj s) - 1" and x': "x < length (adj s)" by simp_all
    from valid_symmetric [OF assms w' x'] w x
    show "map_of (fst (adj ?s ! w)) x = map_of (fst (adj ?s ! x)) w"
      by (simp add: pop_variable_adj_map_of)
  }
qed

lemma total_degree_sum:
  "total_degree s = (\<Sum>u = 0..<length (adj s). length (fst (adj s ! u)))"
  by (simp add: total_degree_def sum_list_sum_nth)

lemma valid_total_degree_even:
  assumes "valid s"
  shows "even (total_degree s)"
proof -
  let ?n = "length (adj s)"
  let ?D = "\<lambda>u. fst ` set (fst (adj s ! u))"
  let ?E = "Sigma {0..<?n} ?D"
  let ?E1 = "{p \<in> ?E. fst p < snd p}"
  let ?E2 = "{p \<in> ?E. snd p < fst p}"
  have fin: "finite ?E" by (intro finite_SigmaI) simp_all
  have len: "length (fst (adj s ! u)) = card (?D u)" if "u < ?n" for u
  proof -
    have "distinct (map fst (fst (adj s ! u)))"
      using assms that by (intro nsorted_distinct valid_nsorted)
    from distinct_card [OF this] show ?thesis by simp
  qed
  have "total_degree s = (\<Sum>u = 0..<?n. card (?D u))"
    unfolding total_degree_sum by (intro sum.cong) (simp_all add: len)
  also have "\<dots> = card ?E" by simp
  finally have total: "total_degree s = card ?E" .
  have mem: "(u, v) \<in> ?E \<longleftrightarrow> u < ?n \<and> map_of (fst (adj s ! u)) v \<noteq> None" for u v
    by (simp add: map_of_dom_iff)
  have sym: "(v, u) \<in> ?E" and irr: "u \<noteq> v" if "(u, v) \<in> ?E" for u v
  proof -
    from that obtain b where u: "u < ?n" and m: "map_of (fst (adj s ! u)) v = Some b"
      unfolding mem by auto
    from valid_SomeD [OF assms u m] show "(v, u) \<in> ?E" "u \<noteq> v" unfolding mem by simp_all
  qed
  have split: "?E = ?E1 \<union> ?E2"
  proof -
    have "fst p < snd p \<or> snd p < fst p" if "p \<in> ?E" for p
      using irr [of "fst p" "snd p"] that by (cases p) auto
    then show ?thesis by blast
  qed
  have disj: "?E1 \<inter> ?E2 = {}" by auto
  have swap: "?E2 = prod.swap ` ?E1"
  proof (intro set_eqI iffI)
    fix p assume "p \<in> ?E2"
    then have "(fst p, snd p) \<in> ?E" "snd p < fst p" by simp_all
    from sym [OF this(1)] this(2) have "(snd p, fst p) \<in> ?E1" by simp
    then have "prod.swap (snd p, fst p) \<in> prod.swap ` ?E1" by (rule imageI)
    then show "p \<in> prod.swap ` ?E1" by simp
  next
    fix p assume "p \<in> prod.swap ` ?E1"
    then obtain q where q: "q \<in> ?E1" "p = prod.swap q" by blast
    then have "(fst q, snd q) \<in> ?E" "fst q < snd q" by simp_all
    from sym [OF this(1)] this(2) q(2) show "p \<in> ?E2" by (cases q) simp
  qed
  have "card ?E2 = card ?E1"
    unfolding swap by (intro card_image) (simp add: inj_on_def prod_eq_iff)
  moreover have "card ?E = card ?E1 + card ?E2"
    using fin by (subst split, intro card_Un_disjoint disj) simp_all
  ultimately show ?thesis using total by simp
qed

lemma nsorted_Nil: "nsorted []"
  by (simp add: nsorted_def)

lemma valid_add_variable: "valid s \<Longrightarrow> valid (fst (add_variable s))"
proof (rule validI)
  assume v: "valid s"
  let ?s = "fst (add_variable s)"
  have adj: "adj ?s = adj s @ [([], 0)]" by (simp add: add_variable_def Let_def)
  have nth: "fst (adj ?s ! w) = (if w < length (adj s) then fst (adj s ! w) else [])"
    if "w < length (adj ?s)" for w
    using that by (auto simp: adj nth_append less_Suc_eq)
  fix w assume w: "w < length (adj ?s)"
  from v w show "nsorted (fst (adj ?s ! w))" by (simp add: nth valid_nsorted nsorted_Nil)
  from v w show "map_of (fst (adj ?s ! w)) w = None" by (simp add: nth valid_no_self)
  {
    fix x c assume "map_of (fst (adj ?s ! w)) x = Some c"
    with w have "w < length (adj s)" "map_of (fst (adj s ! w)) x = Some c"
      by (simp_all add: nth split: if_splits)
    from valid_SomeD(1) [OF v this] show "x < length (adj ?s)" by (simp add: adj)
  next
    fix x assume x: "x < length (adj ?s)"
    show "map_of (fst (adj ?s ! w)) x = map_of (fst (adj ?s ! x)) w"
    proof (cases "w < length (adj s)"; cases "x < length (adj s)")
      assume "w < length (adj s)" "x < length (adj s)"
      with w x valid_symmetric [OF v this] show ?thesis by (simp add: nth)
    next
      assume a: "w < length (adj s)" "\<not> x < length (adj s)"
      have "map_of (fst (adj s ! w)) x = None"
        using valid_SomeD(1) [OF v a(1), of x] a(2) by (cases "map_of (fst (adj s ! w)) x") auto
      with w x a show ?thesis by (simp add: nth)
    next
      assume a: "\<not> w < length (adj s)" "x < length (adj s)"
      have "map_of (fst (adj s ! x)) w = None"
        using valid_SomeD(1) [OF v a(2), of w] a(1) by (cases "map_of (fst (adj s ! x)) w") auto
      with w x a show ?thesis by (simp add: nth)
    next
      assume "\<not> w < length (adj s)" "\<not> x < length (adj s)"
      with w x show ?thesis by (simp add: nth)
    qed
  }
qed

lemma valid_fst_cong:
  assumes "valid s" "length (adj s') = length (adj s)"
    and "\<And>w. w < length (adj s) \<Longrightarrow> fst (adj s' ! w) = fst (adj s ! w)"
  shows "valid s'"
  using assms unfolding valid_def by simp

lemma valid_set_linear: "valid s \<Longrightarrow> set_linear s v b = Some s' \<Longrightarrow> valid s'"
  by (erule valid_fst_cong) (auto simp: set_linear_def nth_list_update split: if_splits)

lemma valid_set_quadratic:
  assumes "valid s" "set_quadratic s u v b = Some (s', r)"
  shows "valid s'"
proof -
  from assms(2) have b: "u < length (adj s)" "v < length (adj s)" "u \<noteq> v"
    by (auto simp: set_quadratic_def split: if_splits)
  from set_quadratic_eq [OF assms(1) b] assms(2) set_quadratic_adj_valid [OF assms(1) b]
  show ?thesis by auto
qed

lemma valid_remove_interaction:
  assumes "valid s" "remove_interaction s u v = Some (s', r)"
  shows "valid s'"
proof -
  from assms(2) have b: "u < length (adj s)" "v < length (adj s)"
    by (auto simp: remove_interaction_def split: if_splits)
  show ?thesis
  proof (cases "map_of (fst (adj s ! u)) v = None")
    case True
    with remove_interaction_eq [OF assms(1) b] assms show ?thesis by simp
  next
    case False
    with valid_no_self [OF assms(1) b(1)] have "u \<noteq> v" by auto
    from remove_interaction_adj_valid [OF assms(1) b this] remove_interaction_eq [OF assms(1) b]
      assms(2) False
    show ?thesis by auto
  qed
qed

lemma valid_pop_variable:
  assumes "valid s" "pop_variable s = Some (s', r)"
  shows "valid s'"
proof -
  from assms(2) have "0 < length (adj s)" by (auto simp: pop_variable_def split: if_splits)
  from pop_variable_eq [OF assms(1) this] assms(2) pop_variable_adj_valid [OF assms(1)]
  show ?thesis by auto
qed

lemma valid_default: "valid AdjVectorBQM_default"
  by (simp add: valid_def AdjVectorBQM_default_def)

lemma map_nth_pair: "map (\<lambda>v. (fst (a ! v), snd (a ! v))) [0..<length a] = a"
  by (rule nth_equalityI) simp_all

lemma copy_fold:
  "k \<le> length a \<Longrightarrow>
   fold (copy_step bqm) [0..<k] a =
     map (\<lambda>v. if v < k then (src_neighborhood bqm v @ fst (a ! v), src_get_linear bqm v)
                else a ! v) [0..<length a]"
proof (induction k)
  case 0
  show ?case by (simp add: map_nth)
next
  case (Suc k)
  then have k: "k < length a" by simp
  let ?m = "map (\<lambda>v. if v < k then (src_neighborhood bqm v @ fst (a ! v), src_get_linear bqm v)
                else a ! v) [0..<length a]"
  have "fold (copy_step bqm) [0..<Suc k] a = copy_step bqm k ?m"
    using Suc by simp
  also have "\<dots> = map (\<lambda>v. if v < Suc k
        then (src_neighborhood bqm v @ fst (a ! v), src_get_linear bqm v) else a ! v) [0..<length a]"
    using k by (intro nth_equalityI) (auto simp: copy_step_def Let_def nth_list_update less_Suc_eq)
  finally show ?case .
qed

lemma AdjVectorBQM_copy_eq:
  "AdjVectorBQM_copy bqm =
     \<lparr>adj = map (\<lambda>v. (src_neighborhood bqm v, src_get_linear bqm v)) [0..<src_num_variables bqm]\<rparr>"
  by (simp add: AdjVectorBQM_copy_def copy_fold)

lemma AdjVectorBQM_copy_source_of: "AdjVectorBQM_copy (source_of s) = s"
  by (simp add: AdjVectorBQM_copy_eq source_of_def map_nth)

lemma entries_empty: "hi \<le> lo \<Longrightarrow> entries f lo hi = []"
  by (simp add: entries_def)

lemma entries_Suc:
  "lo \<le> hi \<Longrightarrow> entries f lo (Suc hi) = entries f lo hi @ (if f hi \<noteq> 0 then [(hi, f hi)] else [])"
  by (simp add: entries_def)

lemma dense_quadratic_length [simp]:
  "length (dense_quadratic cast dense n u v b) = length b"
  by (simp add: dense_quadratic_def Let_def)

lemma dense_quadratic_nth:
  "u < length b \<Longrightarrow> v < length b \<Longrightarrow> u \<noteq> v \<Longrightarrow> i < length b \<Longrightarrow>
   dense_quadratic cast dense n u v b ! i =
     (if dense_qbias cast dense n u v \<noteq> 0 \<and> i = u
      then (fst (b ! u) @ [(v, dense_qbias cast dense n u v)], snd (b ! u))
      else if dense_qbias cast dense n u v \<noteq> 0 \<and> i = v
      then (fst (b ! v) @ [(u, dense_qbias cast dense n u v)], snd (b ! v))
      else b ! i)"
  by (simp add: dense_quadratic_def dense_qbias_def Let_def nth_list_update)

lemma dense_inner:
  "u < length a \<Longrightarrow> m \<le> length a \<Longrightarrow>
   fold (dense_quadratic cast dense n u) [Suc u..<m] a =
     map (\<lambda>w. (fst (a ! w) @
                  (if w = u then entries (dense_qbias cast dense n u) (Suc u) m
                   else if u < w \<and> w < m \<and> dense_qbias cast dense n u w \<noteq> 0
                        then [(u, dense_qbias cast dense n u w)] else []),
                snd (a ! w))) [0..<length a]"
proof (induction m)
  case 0
  show ?case by (intro nth_equalityI) (simp_all add: entries_empty)
next
  case (Suc m)
  let ?q = "dense_qbias cast dense n u"
  let ?G = "\<lambda>m w. (fst (a ! w) @
                  (if w = u then entries ?q (Suc u) m
                   else if u < w \<and> w < m \<and> ?q w \<noteq> 0 then [(u, ?q w)] else []),
                snd (a ! w))"
  show ?case
  proof (cases "u < m")
    case False
    then have "fold (dense_quadratic cast dense n u) [Suc u..<Suc m] a = a" by simp
    also have "a = map (?G (Suc m)) [0..<length a]"
      using False by (intro nth_equalityI) (auto simp: entries_empty)
    finally show ?thesis .
  next
    case True
    from Suc.prems have m: "m < length a" by simp
    have "fold (dense_quadratic cast dense n u) [Suc u..<Suc m] a =
          dense_quadratic cast dense n u m (map (?G m) [0..<length a])"
      using True Suc by simp
    also have "\<dots> = map (?G (Suc m)) [0..<length a]"
    proof (rule nth_equalityI)
      show "length (dense_quadratic cast dense n u m (map (?G m) [0..<length a])) =
            length (map (?G (Suc m)) [0..<length a])"
        by simp
    next
      fix i assume "i < length (dense_quadratic cast dense n u m (map (?G m) [0..<length a]))"
      then have i: "i < length a" by simp
      have "dense_quadratic cast dense n u m (map (?G m) [0..<length a]) ! i =
          (if ?q m \<noteq> 0 \<and> i = u
           then (fst (map (?G m) [0..<length a] ! u) @ [(m, ?q m)], snd (map (?G m) [0..<length a] ! u))
           else if ?q m \<noteq> 0 \<and> i = m
           then (fst (map (?G m) [0..<length a] ! m) @ [(u, ?q m)], snd (map (?G m) [0..<length a] ! m))
           else map (?G m) [0..<length a] ! i)"
        using True i m Suc.prems(1) by (intro dense_quadratic_nth) simp_all
      also have "\<dots> = ?G (Suc m) i"
        using True i m Suc.prems(1) by (auto simp: entries_Suc less_Suc_eq)
      finally show "dense_quadratic cast dense n u m (map (?G m) [0..<length a]) ! i =
            map (?G (Suc m)) [0..<length a] ! i"
        using i by simp
    qed
    finally show ?thesis .
  qed
qed

lemma dense_outer:
  "k \<le> length a \<Longrightarrow>
   fold (\<lambda>u. fold (dense_quadratic cast dense n u) [u + 1..<length a]) [0..<k] a =
     map (\<lambda>w. (fst (a ! w) @ entries (\<lambda>u. dense_qbias cast dense n u w) 0 (min k w) @
                  (if w < k then entries (dense_qbias cast dense n w) (Suc w) (length a) else []),
                snd (a ! w))) [0..<length a]"
proof (induction k)
  case 0
  show ?case by (intro nth_equalityI) (simp_all add: entries_empty)
next
  case (Suc k)
  then have k: "k < length a" by simp
  let ?H = "\<lambda>k w. (fst (a ! w) @ entries (\<lambda>u. dense_qbias cast dense n u w) 0 (min k w) @
                  (if w < k then entries (dense_qbias cast dense n w) (Suc w) (length a) else []),
                snd (a ! w))"
  let ?a' = "map (?H k) [0..<length a]"
  have "fold (\<lambda>u. fold (dense_quadratic cast dense n u) [u + 1..<length a]) [0..<Suc k] a =
        fold (dense_quadratic cast dense n k) [Suc k..<length ?a'] ?a'"
    using Suc by simp
  also have "\<dots> = map (\<lambda>w. (fst (?a' ! w) @
                  (if w = k then entries (dense_qbias cast dense n k) (Suc k) (length ?a')
                   else if k < w \<and> w < length ?a' \<and> dense_qbias cast dense n k w \<noteq> 0
                        then [(k, dense_qbias cast dense n k w)] else []),
                snd (?a' ! w))) [0..<length ?a']"
    using k by (intro dense_inner) simp_all
  also have "\<dots> = map (?H (Suc k)) [0..<length a]"
  proof (rule nth_equalityI)
    fix i assume "i < length (map (\<lambda>w. (fst (?a' ! w) @
                  (if w = k then entries (dense_qbias cast dense n k) (Suc k) (length ?a')
                   else if k < w \<and> w < length ?a' \<and> dense_qbias cast dense n k w \<noteq> 0
                        then [(k, dense_qbias cast dense n k w)] else []),
                snd (?a' ! w))) [0..<length ?a'])"
    then have i: "i < length a" by simp
    consider "i < k" | "i = k" | "k < i" by arith
    then show "map (\<lambda>w. (fst (?a' ! w) @
                  (if w = k then entries (dense_qbias cast dense n k) (Suc k) (length ?a')
                   else if k < w \<and> w < length ?a' \<and> dense_qbias cast dense n k w \<noteq> 0
                        then [(k, dense_qbias cast dense n k w)] else []),
                snd (?a' ! w))) [0..<length ?a'] ! i = map (?H (Suc k)) [0..<length a] ! i"
    proof cases
      case 1
      with i show ?thesis by (simp add: min_def)
    next
      case 2
      with i show ?thesis by (simp add: min_def)
    next
      case 3
      then have "min (Suc k) i = Suc k" "min k i = k" by simp_all
      with 3 i show ?thesis by (simp add: entries_Suc)
    qed
  qed simp
  finally show ?case .
qed

lemma dense_linear_fold:
  "k \<le> length a \<Longrightarrow>
   fold (dense_linear cast dense n) [0..<k] a =
     map (\<lambda>v. if v < k then (fst (a ! v), cast (dense ! (v * (n + 1)))) else a ! v) [0..<length a]"
proof (induction k)
  case 0
  show ?case by (simp add: map_nth)
next
  case (Suc k)
  then have k: "k < length a" by simp
  have "fold (dense_linear cast dense n) [0..<Suc k] a =
      dense_linear cast dense n k
        (map (\<lambda>v. if v < k then (fst (a ! v), cast (dense ! (v * (n + 1)))) else a ! v) [0..<length a])"
    using Suc by simp
  also have "\<dots> =
      map (\<lambda>v. if v < Suc k then (fst (a ! v), cast (dense ! (v * (n + 1)))) else a ! v) [0..<length a]"
    using k by (intro nth_equalityI) (auto simp: dense_linear_def nth_list_update less_Suc_eq)
  finally show ?case .
qed

lemma AdjVectorBQM_dense_eq:
  fixes cast :: "'c::plus \<Rightarrow> 'b::zero"
  shows "AdjVectorBQM_dense cast dense n ignore_diagonal =
     (if length dense < n * n then None else Some \<lparr>adj = dense_adj cast dense n ignore_diagonal\<rparr>)"
proof (cases "length dense < n * n")
  case True
  then show ?thesis by (simp add: AdjVectorBQM_dense_def)
next
  case False
  let ?a0 = "replicate n ([], 0) :: ('b neighborhood \<times> 'b) list"
  let ?a1 = "if \<not> ignore_diagonal then fold (dense_linear cast dense n) [0..<n] ?a0 else ?a0"
  have a1: "?a1 = map (\<lambda>v. ([], if ignore_diagonal then 0 else cast (dense ! (v * (n + 1))))) [0..<n]"
    by (auto simp: dense_linear_fold intro!: nth_equalityI)
  have len: "length ?a1 = n" by (simp add: dense_linear_fold)
  have "fold (\<lambda>u. fold (dense_quadratic cast dense n u) [u + 1..<n]) [0..<n] ?a1 =
        fold (\<lambda>u. fold (dense_quadratic cast dense n u) [u + 1..<length ?a1]) [0..<length ?a1] ?a1"
    unfolding len ..
  also have "\<dots> = map (\<lambda>w. (fst (?a1 ! w) @ entries (\<lambda>u. dense_qbias cast dense n u w) 0 (min (length ?a1) w) @
                  (if w < length ?a1 then entries (dense_qbias cast dense n w) (Suc w) (length ?a1) else []),
                snd (?a1 ! w))) [0..<length ?a1]"
    by (rule dense_outer) simp
  also have "\<dots> = dense_adj cast dense n ignore_diagonal"
    unfolding len dense_adj_def by (intro nth_equalityI) (simp_all add: a1 min_def)
  finally show ?thesis using False by (simp add: AdjVectorBQM_dense_def Let_def)
qed

lemma map_of_entries:
  "map_of (entries f lo hi) x = (if lo \<le> x \<and> x < hi \<and> f x \<noteq> 0 then Some (f x) else None)"
proof -
  have "map_of (map (\<lambda>x. (x, f x)) xs) x = (if x \<in> set xs then Some (f x) else None)" for xs
    by (induction xs) auto
  then show ?thesis by (simp add: entries_def)
qed

lemma fst_entries: "map fst (entries f lo hi) = filter (\<lambda>x. f x \<noteq> 0) [lo..<hi]"
  by (simp add: entries_def comp_def)

lemma nsorted_entries: "nsorted (entries f lo hi)"
  unfolding nsorted_def fst_entries
  by (intro sorted_wrt_filter) (simp add: strict_sorted_iff)

lemma set_entries: "e \<in> set (entries f lo hi) \<Longrightarrow> lo \<le> fst e \<and> fst e < hi"
  by (auto simp: entries_def)

lemma dense_adj_length [simp]: "length (dense_adj cast dense n ig) = n"
  by (simp add: dense_adj_def)

lemma dense_adj_fst:
  "w < n \<Longrightarrow> fst (dense_adj cast dense n ig ! w) =
     entries (\<lambda>u. dense_qbias cast dense n u w) 0 w @ entries (dense_qbias cast dense n w) (Suc w) n"
  by (simp add: dense_adj_def)

lemma dense_adj_snd:
  "w < n \<Longrightarrow> snd (dense_adj cast dense n ig ! w) =
     (if ig then 0 else cast (dense ! (w * (n + 1))))"
  by (simp add: dense_adj_def)

lemma dense_adj_map_of:
  "w < n \<Longrightarrow> map_of (fst (dense_adj cast dense n ig ! w)) x =
     (if x < w \<and> dense_qbias cast dense n x w \<noteq> 0 then Some (dense_qbias cast dense n x w)
      else if w < x \<and> x < n \<and> dense_qbias cast dense n w x \<noteq> 0
           then Some (dense_qbias cast dense n w x)
      else None)"
  by (simp add: dense_adj_fst map_of_entries map_add_def Suc_le_eq)

lemma dense_adj_valid: "valid \<lparr>adj = dense_adj cast dense n ig\<rparr>"
proof (rule validI)
  let ?s = "\<lparr>adj = dense_adj cast dense n ig\<rparr>"
  fix w assume "w < length (adj ?s)"
  then have w: "w < n" by simp
  have "fst y < fst z" if "y \<in> set (entries (\<lambda>u. dense_qbias cast dense n u w) 0 w)"
      "z \<in> set (entries (dense_qbias cast dense n w) (Suc w) n)" for y z
    using set_entries [OF that(1)] set_entries [OF that(2)] by simp
  with w show "nsorted (fst (adj ?s ! w))"
    by (simp add: dense_adj_fst nsorted_append nsorted_entries)
  from w show "map_of (fst (adj ?s ! w)) w = None" by (simp add: dense_adj_map_of)
  {
    fix x c assume "map_of (fst (adj ?s ! w)) x = Some c"
    with w show "x < length (adj ?s)" by (simp add: dense_adj_map_of split: if_splits)
  next
    fix x assume "x < length (adj ?s)"
    then have "x < n" by simp
    with w show "map_of (fst (adj ?s ! w)) x = map_of (fst (adj ?s ! x)) w"
      by (simp add: dense_adj_map_of)
  }
qed

lemma valid_dense: "AdjVectorBQM_dense cast dense n ig = Some s \<Longrightarrow> valid s"
  by (auto simp: AdjVectorBQM_dense_eq dense_adj_valid split: if_splits)

lemma valid_copy: "valid s \<Longrightarrow> valid (AdjVectorBQM_copy (source_of s))"
  by (simp add: AdjVectorBQM_copy_source_of)

lemma dense_zero_sum_no_edge:
  fixes cast :: "'c::plus \<Rightarrow> 'b::zero"
  assumes "AdjVectorBQM_dense cast dense n ignore_diagonal = Some d" "i < j" "j < n"
    and "cast (dense ! (i * n + j) + dense ! (j * n + i)) = 0"
  shows "get_quadratic d i j = Some (0, False)" "get_quadratic d j i = Some (0, False)"
proof -
  from assms(1) have d: "d = \<lparr>adj = dense_adj cast dense n ignore_diagonal\<rparr>"
    by (simp add: AdjVectorBQM_dense_eq split: if_splits)
  have v: "valid d" using assms(1) by (rule valid_dense)
  from assms(2,3) have b: "i < length (adj d)" "j < length (adj d)" "i \<noteq> j" "j \<noteq> i"
    by (simp_all add: d)
  from assms(4) have z: "dense_qbias cast dense n i j = 0" by (simp add: dense_qbias_def)
  from assms(2,3) z show "get_quadratic d i j = Some (0, False)"
    unfolding get_quadratic_map_of [OF v b(1,2,3)] by (simp add: d dense_adj_map_of)
  from assms(2,3) z show "get_quadratic d j i = Some (0, False)"
    unfolding get_quadratic_map_of [OF v b(2,1,4)] by (simp add: d dense_adj_map_of)
qed

lemma reachable_valid: "reachable s \<Longrightarrow> valid s"
proof (induction rule: reachable.induct)
  case by_default
  show ?case by (rule valid_default)
next
  case (by_copy src)
  then show ?case by (simp add: valid_copy)
next
  case (by_dense cast dense n ignore_diagonal s)
  then show ?case by (rule valid_dense)
next
  case (by_add_variable s)
  then show ?case by (simp add: valid_add_variable)
next
  case (by_pop_variable s s' r)
  then show ?case by (auto intro: valid_pop_variable)
next
  case (by_remove_interaction s u v s' found)
  then show ?case by (auto intro: valid_remove_interaction)
next
  case (by_set_linear s v b s')
  then show ?case by (auto intro: valid_set_linear)
next
  case (by_set_quadratic s u v b s' applied)
  then show ?case by (auto intro: valid_set_quadratic)
qed

lemma example_bqm_reachable: "reachable example_bqm"
proof -
  let ?s0 = "AdjVectorBQM_default :: int AdjVectorBQM"
  let ?s3 = "fst (add_variable (fst (add_variable (fst (add_variable ?s0)))))"
  have "reachable ?s3" by (intro by_add_variable by_default)
  moreover have "set_linear ?s3 0 7 = Some \<lparr>adj = [([], 7), ([], 0), ([], 0)]\<rparr>" by code_simp
  ultimately have "reachable \<lparr>adj = [([], 7), ([], 0 :: int), ([], 0)]\<rparr>" by (rule by_set_linear)
  moreover have "set_quadratic \<lparr>adj = [([], 7), ([], 0 :: int), ([], 0)]\<rparr> 0 1 5 =
      Some (example_bqm, True)" by code_simp
  ultimately show ?thesis by (rule by_set_quadratic)
qed

lemma sum_of_degrees_total: "sum_of_degrees s = total_degree s"
proof -
  have "map (\<lambda>v. the (degree s v)) [0..<length (adj s)] =
        map (\<lambda>v. length (fst (adj s ! v))) [0..<length (adj s)]"
    by (intro map_cong) (simp_all add: degree_def)
  also have "\<dots> = map (\<lambda>it. length (fst it)) (adj s)"
    by (intro nth_equalityI) simp_all
  finally show ?thesis by (simp add: sum_of_degrees_def total_degree_def num_variables_def)
qed

lemma example_star_reachable: "reachable example_star"
proof -
  from example_bqm_reachable
  have "reachable \<lparr>adj = [([(1, 5)], 7), ([(0, 5)], 0), ([], 0 :: int)]\<rparr>"
    by (simp add: example_bqm_def)
  moreover have "set_linear \<lparr>adj = [([(1, 5)], 7), ([(0, 5)], 0), ([], 0 :: int)]\<rparr> 2 9 =
      Some \<lparr>adj = [([(1, 5)], 7), ([(0, 5)], 0), ([], 9)]\<rparr>" by code_simp
  ultimately have "reachable \<lparr>adj = [([(1, 5)], 7), ([(0, 5)], 0), ([], 9 :: int)]\<rparr>"
    by (rule by_set_linear)
  moreover have "set_quadratic \<lparr>adj = [([(1, 5)], 7), ([(0, 5)], 0), ([], 9 :: int)]\<rparr> 0 2 4 =
      Some (example_star, True)" by code_simp
  ultimately show ?thesis by (rule by_set_quadratic)
qed

section \<open>The claims\<close>

subsection \<open>C7: what get_quadratic returns\<close>

text \<open>
  C7. In a valid state, for distinct variables \<open>u\<close> and \<open>v\<close> that exist,
  \<open>get_quadratic(u, v)\<close> returns \<open>(b, true)\<close> when the neighbourhood of \<open>u\<close> stores the
  entry \<open>(v, b)\<close>, and \<open>(0, false)\<close> when it stores no entry for \<open>v\<close>. The member
  function is \<open>const\<close>: the model gives it no state to return.
\<close>

theorem get_quadratic_result:
  "valid s \<Longrightarrow> u < num_variables s \<Longrightarrow> v < num_variables s \<Longrightarrow> u \<noteq> v \<Longrightarrow>
   (\<forall>b. (v, b) \<in> set (fst (adj s ! u)) \<longrightarrow> get_quadratic s u v = Some (b, True)) \<and>
   (v \<notin> fst ` set (fst (adj s ! u)) \<longrightarrow> get_quadratic s u v = Some (0, False))"
  by (simp add: num_variables_def get_quadratic_map_of map_of_dom_iff [symmetric]
      map_of_nsorted_iff [symmetric] valid_nsorted)

theorem get_quadratic_result_witness:
  "valid \<lparr>adj = [([(1, 5)], 7), ([(0, 5::int)], 0), ([], 0)]\<rparr> \<and>
   (1, 5) \<in> set (fst (adj \<lparr>adj = [([(1, 5)], 7), ([(0, 5::int)], 0), ([], 0)]\<rparr> ! 0)) \<and>
   get_quadratic \<lparr>adj = [([(1, 5)], 7), ([(0, 5::int)], 0), ([], 0)]\<rparr> 0 1 = Some (5, True) \<and>
   2 \<notin> fst ` set (fst (adj \<lparr>adj = [([(1, 5)], 7), ([(0, 5::int)], 0), ([], 0)]\<rparr> ! 0)) \<and>
   get_quadratic \<lparr>adj = [([(1, 5)], 7), ([(0, 5::int)], 0), ([], 0)]\<rparr> 0 2 = Some (0, False)"
proof -
  let ?s = "\<lparr>adj = [([(1, 5)], 7), ([(0, 5::int)], 0), ([], 0)]\<rparr>"
  have v: "valid ?s" by code_simp
  from get_quadratic_result [OF v, of 0 1] get_quadratic_result [OF v, of 0 2] v
  show ?thesis by (simp add: num_variables_def)
qed

subsection \<open>C3: the postcondition of set_quadratic\<close>

text \<open>
  C3. In a valid state, for distinct variables \<open>u\<close> and \<open>v\<close> that exist and any bias
  \<open>b\<close>, \<open>set_quadratic(u, v, b)\<close> returns \<open>true\<close>; afterwards \<open>get_quadratic(u, v)\<close>
  and \<open>get_quadratic(v, u)\<close> both return \<open>(b, true)\<close>; \<open>num_interactions()\<close> is
  unchanged when the edge existed and one greater when it did not; the result of
  \<open>get_quadratic\<close> on every other pair, every linear bias and \<open>num_variables()\<close> are
  unchanged. A second call with the same arguments returns \<open>true\<close> again and leaves
  the state exactly as the first call left it, so neither \<open>num_interactions()\<close> nor
  \<open>get_quadratic(u, v)\<close> changes.
\<close>

theorem set_quadratic_postcondition:
  "valid s \<Longrightarrow> u < num_variables s \<Longrightarrow> v < num_variables s \<Longrightarrow> u \<noteq> v \<Longrightarrow>
   (\<exists>s'. set_quadratic s u v b = Some (s', True) \<and>
      get_quadratic s' u v = Some (b, True) \<and>
      get_quadratic s' v u = Some (b, True) \<and>
      num_interactions s' =
        (if map_option snd (get_quadratic s u v) = Some True then num_interactions s
         else num_interactions s + 1) \<and>
      (\<forall>x y. x < num_variables s \<longrightarrow> y < num_variables s \<longrightarrow> x \<noteq> y \<longrightarrow> {x, y} \<noteq> {u, v} \<longrightarrow>
         get_quadratic s' x y = get_quadratic s x y) \<and>
      (\<forall>x. get_linear s' x = get_linear s x) \<and>
      num_variables s' = num_variables s \<and>
      set_quadratic s' u v b = Some (s', True))"
proof -
  assume a: "valid s" "u < num_variables s" "v < num_variables s" "u \<noteq> v"
  then have b: "u < length (adj s)" "v < length (adj s)" by (simp_all add: num_variables_def)
  note c = a(1) b a(4)
  let ?s = "s\<lparr>adj := set_quadratic_adj (adj s) u v b\<rparr>"
  have 1: "set_quadratic s u v b = Some (?s, True)" using c by (rule set_quadratic_eq)
  have 2: "get_quadratic ?s u v = Some (b, True)" "get_quadratic ?s v u = Some (b, True)"
    using c by (simp_all add: set_quadratic_adj_get)
  have 3: "num_interactions ?s =
      (if map_option snd (get_quadratic s u v) = Some True then num_interactions s
       else num_interactions s + 1)"
    unfolding get_quadratic_found_iff [OF c]
    using c by (simp add: num_interactions_total set_quadratic_adj_total)
  have 4: "\<forall>x y. x < num_variables s \<longrightarrow> y < num_variables s \<longrightarrow> x \<noteq> y \<longrightarrow> {x, y} \<noteq> {u, v} \<longrightarrow>
         get_quadratic ?s x y = get_quadratic s x y"
    using c by (auto simp: num_variables_def set_quadratic_adj_get)
  have 5: "\<forall>x. get_linear ?s x = get_linear s x"
    by (simp add: get_linear_def set_quadratic_adj_snd)
  have 6: "num_variables ?s = num_variables s" by (simp add: num_variables_def)
  have "valid ?s" using c by (rule set_quadratic_adj_valid)
  then have "set_quadratic ?s u v b = Some (?s\<lparr>adj := set_quadratic_adj (adj ?s) u v b\<rparr>, True)"
    using c by (intro set_quadratic_eq) simp_all
  then have 7: "set_quadratic ?s u v b = Some (?s, True)"
    using c by (simp add: set_quadratic_adj_idem)
  from 1 2 3 4 5 6 7 show ?thesis by blast
qed

theorem set_quadratic_postcondition_witness:
  "valid example_bqm \<and> 0 < num_variables example_bqm \<and> 2 < num_variables example_bqm \<and>
   (0::nat) \<noteq> 2 \<and>
   (\<exists>s'. set_quadratic example_bqm 0 2 3 = Some (s', True) \<and>
      get_quadratic s' 0 2 = Some (3, True) \<and>
      get_quadratic s' 2 0 = Some (3, True) \<and>
      num_interactions s' = 2 \<and>
      get_quadratic s' 0 1 = Some (5, True) \<and>
      get_linear s' 0 = Some 7 \<and>
      num_variables s' = 3 \<and>
      set_quadratic s' 0 2 3 = Some (s', True))"
proof -
  have n: "0 < num_variables example_bqm" "2 < num_variables example_bqm" "(0::nat) \<noteq> 2"
    "1 < num_variables example_bqm"
    by (simp_all add: example_bqm_size)
  have e: "map_option snd (get_quadratic example_bqm 0 2) \<noteq> Some True"
    "num_interactions example_bqm = 1" "get_quadratic example_bqm 0 1 = Some (5, True)"
    "get_linear example_bqm 0 = Some 7"
    by code_simp+
  from set_quadratic_postcondition [OF example_bqm_valid n(1-3), of 3]
  obtain s' where s': "set_quadratic example_bqm 0 2 3 = Some (s', True)"
      "get_quadratic s' 0 2 = Some (3, True)" "get_quadratic s' 2 0 = Some (3, True)"
      "num_interactions s' =
        (if map_option snd (get_quadratic example_bqm 0 2) = Some True
         then num_interactions example_bqm else num_interactions example_bqm + 1)"
      "\<forall>x y. x < num_variables example_bqm \<longrightarrow> y < num_variables example_bqm \<longrightarrow> x \<noteq> y \<longrightarrow>
         {x, y} \<noteq> {0, 2} \<longrightarrow> get_quadratic s' x y = get_quadratic example_bqm x y"
      "\<forall>x. get_linear s' x = get_linear example_bqm x"
      "num_variables s' = num_variables example_bqm"
      "set_quadratic s' 0 2 3 = Some (s', True)"
    by blast
  from s'(5) n have "get_quadratic s' 0 1 = get_quadratic example_bqm 0 1"
    by (simp add: doubleton_eq_iff)
  with s' e n example_bqm_valid example_bqm_size show ?thesis by simp
qed

subsection \<open>C6: remove_interaction\<close>

text \<open>
  C6. In a valid state, for distinct variables \<open>u\<close> and \<open>v\<close> that exist,
  \<open>remove_interaction(u, v)\<close> returns \<open>true\<close> exactly when \<open>get_quadratic(u, v)\<close>
  found the edge before the call. When it returns \<open>true\<close>, both copies are gone
  (\<open>get_quadratic\<close> returns \<open>(0, false)\<close> in both directions), \<open>num_interactions()\<close> is
  one less, and the result of \<open>get_quadratic\<close> on every other pair, every linear bias and
  \<open>num_variables()\<close> are unchanged. When it returns \<open>false\<close>, the state is unchanged.
\<close>

theorem remove_interaction_result:
  "valid s \<Longrightarrow> u < num_variables s \<Longrightarrow> v < num_variables s \<Longrightarrow> u \<noteq> v \<Longrightarrow>
   (\<exists>s' r. remove_interaction s u v = Some (s', r) \<and>
      (r \<longleftrightarrow> map_option snd (get_quadratic s u v) = Some True) \<and>
      (r \<longrightarrow>
         get_quadratic s' u v = Some (0, False) \<and>
         get_quadratic s' v u = Some (0, False) \<and>
         num_interactions s' + 1 = num_interactions s \<and>
         (\<forall>x y. x < num_variables s \<longrightarrow> y < num_variables s \<longrightarrow> x \<noteq> y \<longrightarrow> {x, y} \<noteq> {u, v} \<longrightarrow>
            get_quadratic s' x y = get_quadratic s x y) \<and>
         (\<forall>x. get_linear s' x = get_linear s x) \<and>
         num_variables s' = num_variables s) \<and>
      (\<not> r \<longrightarrow> s' = s))"
proof -
  assume a: "valid s" "u < num_variables s" "v < num_variables s" "u \<noteq> v"
  then have b: "u < length (adj s)" "v < length (adj s)" by (simp_all add: num_variables_def)
  note c = a(1) b a(4)
  note eq = remove_interaction_eq [OF a(1) b]
  show ?thesis
  proof (cases "map_of (fst (adj s ! u)) v = None")
    case True
    with eq get_quadratic_found_iff [OF c] show ?thesis by simp
  next
    case False
    let ?s = "s\<lparr>adj := remove_interaction_adj (adj s) u v\<rparr>"
    have 1: "remove_interaction s u v = Some (?s, True)" using eq False by simp
    have 2: "map_option snd (get_quadratic s u v) = Some True"
      using False get_quadratic_found_iff [OF c] by simp
    have 3: "get_quadratic ?s u v = Some (0, False)" "get_quadratic ?s v u = Some (0, False)"
      using c by (simp_all add: remove_interaction_adj_get)
    have "total_degree ?s + 2 = total_degree s"
      using a(1) b False by (rule remove_interaction_adj_total)
    then have 4: "num_interactions ?s + 1 = num_interactions s"
      by (simp add: num_interactions_total)
    have 5: "\<forall>x y. x < num_variables s \<longrightarrow> y < num_variables s \<longrightarrow> x \<noteq> y \<longrightarrow> {x, y} \<noteq> {u, v} \<longrightarrow>
         get_quadratic ?s x y = get_quadratic s x y"
      using c by (auto simp: num_variables_def remove_interaction_adj_get)
    have 6: "\<forall>x. get_linear ?s x = get_linear s x"
      by (simp add: get_linear_def remove_interaction_adj_snd)
    have 7: "num_variables ?s = num_variables s" by (simp add: num_variables_def)
    from 1 2 3 4 5 6 7 show ?thesis by blast
  qed
qed

theorem remove_interaction_result_witness:
  "valid example_bqm \<and> 0 < num_variables example_bqm \<and> 1 < num_variables example_bqm \<and>
   (0::nat) \<noteq> 1 \<and> map_option snd (get_quadratic example_bqm 0 1) = Some True \<and>
   (\<exists>s'. remove_interaction example_bqm 0 1 = Some (s', True) \<and>
      get_quadratic s' 0 1 = Some (0, False) \<and>
      get_quadratic s' 1 0 = Some (0, False) \<and>
      num_interactions s' + 1 = num_interactions example_bqm \<and>
      get_quadratic s' 0 2 = get_quadratic example_bqm 0 2 \<and>
      get_linear s' 0 = get_linear example_bqm 0 \<and>
      num_variables s' = num_variables example_bqm) \<and>
   2 < num_variables example_bqm \<and> (0::nat) \<noteq> 2 \<and>
   map_option snd (get_quadratic example_bqm 0 2) \<noteq> Some True \<and>
   remove_interaction example_bqm 0 2 = Some (example_bqm, False)"
proof -
  have n: "0 < num_variables example_bqm" "1 < num_variables example_bqm" "(0::nat) \<noteq> 1"
    "2 < num_variables example_bqm" "(0::nat) \<noteq> 2"
    by (simp_all add: example_bqm_size)
  have e: "map_option snd (get_quadratic example_bqm 0 1) = Some True"
    "map_option snd (get_quadratic example_bqm 0 2) \<noteq> Some True"
    by code_simp+
  from remove_interaction_result [OF example_bqm_valid n(1-3)] e(1)
  obtain s' where s': "remove_interaction example_bqm 0 1 = Some (s', True)"
      "get_quadratic s' 0 1 = Some (0, False)" "get_quadratic s' 1 0 = Some (0, False)"
      "num_interactions s' + 1 = num_interactions example_bqm"
      "\<forall>x y. x < num_variables example_bqm \<longrightarrow> y < num_variables example_bqm \<longrightarrow> x \<noteq> y \<longrightarrow>
         {x, y} \<noteq> {0, 1} \<longrightarrow> get_quadratic s' x y = get_quadratic example_bqm x y"
      "\<forall>x. get_linear s' x = get_linear example_bqm x"
      "num_variables s' = num_variables example_bqm"
    by auto
  from s'(5) n have o: "get_quadratic s' 0 2 = get_quadratic example_bqm 0 2"
    by (simp add: doubleton_eq_iff)
  from remove_interaction_result [OF example_bqm_valid n(1,4,5)] e(2)
  have "remove_interaction example_bqm 0 2 = Some (example_bqm, False)" by auto
  with s' o e n example_bqm_valid show ?thesis by auto
qed

subsection \<open>C5: the postcondition of pop_variable\<close>

text \<open>
  C5. On a structure without variables \<open>pop_variable()\<close> has no result (its assertion
  fails). In a valid state with \<open>n \<ge> 1\<close> variables it returns \<open>n - 1\<close>, which is the new
  \<open>num_variables()\<close>; no remaining neighbourhood has an entry for the index \<open>n - 1\<close>;
  every remaining linear bias is unchanged, and so is the result of \<open>get_quadratic\<close> on
  every pair of remaining variables.
\<close>

theorem pop_variable_postcondition:
  "(num_variables s = 0 \<longrightarrow> pop_variable s = None) \<and>
   (valid s \<and> 0 < num_variables s \<longrightarrow>
     (\<exists>s'. pop_variable s = Some (s', num_variables s - 1) \<and>
        num_variables s' = num_variables s - 1 \<and>
        (\<forall>u<num_variables s'. num_variables s - 1 \<notin> fst ` set (fst (adj s' ! u))) \<and>
        (\<forall>u<num_variables s'. get_linear s' u = get_linear s u) \<and>
        (\<forall>x<num_variables s'. \<forall>y<num_variables s'. x \<noteq> y \<longrightarrow>
           get_quadratic s' x y = get_quadratic s x y)))"
proof (intro conjI impI)
  assume "num_variables s = 0"
  then show "pop_variable s = None" by (simp add: num_variables_def pop_variable_def)
next
  assume "valid s \<and> 0 < num_variables s"
  then have a: "valid s" "0 < length (adj s)" by (simp_all add: num_variables_def)
  let ?s = "s\<lparr>adj := pop_variable_adj (adj s)\<rparr>"
  have v': "valid ?s" using a(1) by (rule pop_variable_adj_valid)
  have 1: "pop_variable s = Some (?s, num_variables s - 1)"
    using pop_variable_eq [OF a] by (simp add: num_variables_def)
  have 2: "num_variables ?s = num_variables s - 1" by (simp add: num_variables_def)
  have 3: "\<forall>u<num_variables ?s. num_variables s - 1 \<notin> fst ` set (fst (adj ?s ! u))"
    by (auto simp: num_variables_def pop_variable_adj_nth)
  have 4: "\<forall>u<num_variables ?s. get_linear ?s u = get_linear s u"
    by (auto simp: num_variables_def get_linear_def pop_variable_adj_nth)
  have 5: "\<forall>x<num_variables ?s. \<forall>y<num_variables ?s. x \<noteq> y \<longrightarrow>
           get_quadratic ?s x y = get_quadratic s x y"
  proof (intro allI impI)
    fix x y assume "x < num_variables ?s" "y < num_variables ?s" "x \<noteq> y"
    then have x: "x < length (adj s) - 1" "x < length (adj s)" "x < length (adj ?s)"
      and y: "y < length (adj s) - 1" "y < length (adj s)" "y < length (adj ?s)"
      and ne: "x \<noteq> y" by (simp_all add: num_variables_def)
    have "get_quadratic ?s x y =
        Some (case map_of (fst (adj ?s ! x)) y of None \<Rightarrow> (0, False) | Some b \<Rightarrow> (b, True))"
      using v' x(3) y(3) ne by (rule get_quadratic_map_of)
    also have "map_of (fst (adj ?s ! x)) y = map_of (fst (adj s ! x)) y"
      using x y by (simp add: pop_variable_adj_map_of)
    also have "Some (case map_of (fst (adj s ! x)) y of None \<Rightarrow> (0, False) | Some b \<Rightarrow> (b, True))
        = get_quadratic s x y"
      using a(1) x(2) y(2) ne by (rule get_quadratic_map_of [symmetric])
    finally show "get_quadratic ?s x y = get_quadratic s x y" .
  qed
  from 1 2 3 4 5 show "\<exists>s'. pop_variable s = Some (s', num_variables s - 1) \<and>
        num_variables s' = num_variables s - 1 \<and>
        (\<forall>u<num_variables s'. num_variables s - 1 \<notin> fst ` set (fst (adj s' ! u))) \<and>
        (\<forall>u<num_variables s'. get_linear s' u = get_linear s u) \<and>
        (\<forall>x<num_variables s'. \<forall>y<num_variables s'. x \<noteq> y \<longrightarrow>
           get_quadratic s' x y = get_quadratic s x y)" by blast
qed

theorem pop_variable_postcondition_witness:
  "num_variables (AdjVectorBQM_default :: int AdjVectorBQM) = 0 \<and>
   pop_variable (AdjVectorBQM_default :: int AdjVectorBQM) = None \<and>
   valid example_star \<and> 0 < num_variables example_star \<and>
   (\<exists>s'. pop_variable example_star = Some (s', 2) \<and>
      num_variables s' = 2 \<and>
      2 \<notin> fst ` set (fst (adj s' ! 0)) \<and>
      get_linear s' 0 = Some 7 \<and>
      get_quadratic s' 0 1 = Some (5, True))"
proof -
  have z: "num_variables (AdjVectorBQM_default :: int AdjVectorBQM) = 0"
    by (simp add: num_variables_def AdjVectorBQM_default_def)
  have e: "get_linear example_star 0 = Some 7" "get_quadratic example_star 0 1 = Some (5, True)"
    by code_simp+
  have n: "0 < num_variables example_star" by (simp add: example_star_size)
  from pop_variable_postcondition [of example_star] example_star_valid n
  obtain s' where s': "pop_variable example_star = Some (s', num_variables example_star - 1)"
      "num_variables s' = num_variables example_star - 1"
      "\<forall>u<num_variables s'. num_variables example_star - 1 \<notin> fst ` set (fst (adj s' ! u))"
      "\<forall>u<num_variables s'. get_linear s' u = get_linear example_star u"
      "\<forall>x<num_variables s'. \<forall>y<num_variables s'. x \<noteq> y \<longrightarrow>
           get_quadratic s' x y = get_quadratic example_star x y"
    by blast
  from s'(2) have m: "num_variables s' = 2" by (simp add: example_star_size)
  from s'(3) m have "2 \<notin> fst ` set (fst (adj s' ! 0))" by (simp add: example_star_size)
  moreover from s'(4) m e have "get_linear s' 0 = Some 7" by simp
  moreover from s'(5) m e have "get_quadratic s' 0 1 = Some (5, True)" by simp
  moreover from s'(1) have "pop_variable example_star = Some (s', 2)"
    by (simp add: example_star_size)
  ultimately show ?thesis
    using z pop_variable_postcondition [of "AdjVectorBQM_default :: int AdjVectorBQM"]
      example_star_valid n m by blast
qed

subsection \<open>C9: add_variable followed by pop_variable\<close>

text \<open>
  C9. In every state, \<open>add_variable()\<close> returns the previous \<open>num_variables()\<close>, and
  \<open>pop_variable()\<close> called right after it returns that number again and gives back
  the state from before the two calls: the whole vector \<open>adj\<close> is as it was, hence
  \<open>num_variables()\<close> and the linear bias, the degree and the neighbourhood of every
  variable are.
\<close>

theorem add_then_pop_variable:
  "pop_variable (fst (add_variable s)) = Some (s, num_variables s) \<and>
   snd (add_variable s) = num_variables s"
  by (simp add: add_variable_def pop_variable_def num_variables_def Let_def nth_append)

theorem add_then_pop_variable_witness:
  "pop_variable (fst (add_variable example_star)) = Some (example_star, 3) \<and>
   snd (add_variable example_star) = 3"
  using add_then_pop_variable [of example_star] by (simp add: example_star_size)

subsection \<open>C4: the dense constructor\<close>

text \<open>
  C4. Let \<open>dense\<close> hold an \<open>n \<times> n\<close> matrix in row-major order, equal to its transpose,
  with elements of the bias type. The constructor with \<open>ignore_diagonal = false\<close> gives
  a structure with \<open>n\<close> variables in which \<open>get_linear(i)\<close> is the diagonal element of
  row \<open>i\<close> and, for \<open>i \<noteq> j\<close>, \<open>get_quadratic(i, j)\<close> is the sum of the elements at
  \<open>(i, j)\<close> and \<open>(j, i)\<close> with \<open>true\<close> when that sum is not zero, and \<open>(0, false)\<close> when
  it is zero.
\<close>

theorem dense_round_trip:
  fixes dense :: "'b::{zero,plus} list"
  shows "length dense = n * n \<Longrightarrow>
   (\<forall>i<n. \<forall>j<n. dense ! (i * n + j) = dense ! (j * n + i)) \<Longrightarrow>
   (\<exists>d. AdjVectorBQM_dense (\<lambda>x. x) dense n False = Some d \<and>
      num_variables d = n \<and>
      (\<forall>i<n. get_linear d i = Some (dense ! (i * n + i))) \<and>
      (\<forall>i<n. \<forall>j<n. i \<noteq> j \<longrightarrow>
         get_quadratic d i j =
           (if dense ! (i * n + j) + dense ! (j * n + i) \<noteq> 0
            then Some (dense ! (i * n + j) + dense ! (j * n + i), True)
            else Some (0, False))))"
proof -
  assume len: "length dense = n * n"
    and sym: "\<forall>i<n. \<forall>j<n. dense ! (i * n + j) = dense ! (j * n + i)"
  let ?d = "\<lparr>adj = dense_adj (\<lambda>x. x) dense n False\<rparr>"
  have v: "valid ?d" by (rule dense_adj_valid)
  have 1: "AdjVectorBQM_dense (\<lambda>x. x) dense n False = Some ?d"
    using len by (simp add: AdjVectorBQM_dense_eq)
  have 2: "num_variables ?d = n" by (simp add: num_variables_def)
  have 3: "\<forall>i<n. get_linear ?d i = Some (dense ! (i * n + i))"
    by (simp add: get_linear_def dense_adj_snd add.commute)
  have 4: "\<forall>i<n. \<forall>j<n. i \<noteq> j \<longrightarrow>
         get_quadratic ?d i j =
           (if dense ! (i * n + j) + dense ! (j * n + i) \<noteq> 0
            then Some (dense ! (i * n + j) + dense ! (j * n + i), True)
            else Some (0, False))"
  proof (intro allI impI)
    fix i j assume ij: "i < n" "j < n" "i \<noteq> j"
    from sym ij have s: "dense ! (j * n + i) = dense ! (i * n + j)" by simp
    have "get_quadratic ?d i j =
        Some (case map_of (fst (adj ?d ! i)) j of None \<Rightarrow> (0, False) | Some b \<Rightarrow> (b, True))"
      using ij by (intro get_quadratic_map_of [OF v]) simp_all
    also have "\<dots> = (if dense ! (i * n + j) + dense ! (j * n + i) \<noteq> 0
            then Some (dense ! (i * n + j) + dense ! (j * n + i), True)
            else Some (0, False))"
      using ij by (cases "j < i") (simp_all add: dense_adj_map_of dense_qbias_def s)
    finally show "get_quadratic ?d i j =
           (if dense ! (i * n + j) + dense ! (j * n + i) \<noteq> 0
            then Some (dense ! (i * n + j) + dense ! (j * n + i), True)
            else Some (0, False))" .
  qed
  from 1 2 3 4 show ?thesis by blast
qed

theorem dense_round_trip_witness:
  "length [1, 2, 0, 2, 3, 4, 0, 4, 5 :: int] = 3 * 3 \<and>
   (\<exists>d. AdjVectorBQM_dense (\<lambda>x. x) [1, 2, 0, 2, 3, 4, 0, 4, 5 :: int] 3 False = Some d \<and>
      num_variables d = 3 \<and>
      get_linear d 1 = Some 3 \<and>
      get_quadratic d 0 1 = Some (4, True) \<and>
      get_quadratic d 2 1 = Some (8, True) \<and>
      get_quadratic d 0 2 = Some (0, False))"
proof -
  let ?M = "[1, 2, 0, 2, 3, 4, 0, 4, 5 :: int]"
  have len: "length ?M = 3 * 3" by simp
  have sym: "\<forall>i<3. \<forall>j<3. ?M ! (i * 3 + j) = ?M ! (j * 3 + i)"
    by (simp add: All_less_Suc eval_nat_numeral)
  from dense_round_trip [OF len sym]
  obtain d where d: "AdjVectorBQM_dense (\<lambda>x. x) ?M 3 False = Some d" "num_variables d = 3"
      "\<forall>i<3. get_linear d i = Some (?M ! (i * 3 + i))"
      "\<forall>i<3. \<forall>j<3. i \<noteq> j \<longrightarrow> get_quadratic d i j =
           (if ?M ! (i * 3 + j) + ?M ! (j * 3 + i) \<noteq> 0
            then Some (?M ! (i * 3 + j) + ?M ! (j * 3 + i), True) else Some (0, False))"
    by blast
  from d(3) have "get_linear d 1 = Some (?M ! (1 * 3 + 1))" by simp
  then have l: "get_linear d 1 = Some 3" by (simp add: eval_nat_numeral)
  from d(4) have "get_quadratic d 0 1 =
           (if ?M ! (0 * 3 + 1) + ?M ! (1 * 3 + 0) \<noteq> 0
            then Some (?M ! (0 * 3 + 1) + ?M ! (1 * 3 + 0), True) else Some (0, False))" by simp
  then have q1: "get_quadratic d 0 1 = Some (4, True)" by (simp add: eval_nat_numeral)
  from d(4) have "get_quadratic d 2 1 =
           (if ?M ! (2 * 3 + 1) + ?M ! (1 * 3 + 2) \<noteq> 0
            then Some (?M ! (2 * 3 + 1) + ?M ! (1 * 3 + 2), True) else Some (0, False))" by simp
  then have q2: "get_quadratic d 2 1 = Some (8, True)" by (simp add: eval_nat_numeral)
  from d(4) have "get_quadratic d 0 2 =
           (if ?M ! (0 * 3 + 2) + ?M ! (2 * 3 + 0) \<noteq> 0
            then Some (?M ! (0 * 3 + 2) + ?M ! (2 * 3 + 0), True) else Some (0, False))" by simp
  then have q3: "get_quadratic d 0 2 = Some (0, False)" by (simp add: eval_nat_numeral)
  from len d(1,2) l q1 q2 q3 show ?thesis by blast
qed

subsection \<open>C10: a zero bias set explicitly is stored\<close>

text \<open>
  C10. In a valid state, for distinct variables \<open>u\<close> and \<open>v\<close> that exist and have no
  edge between them, \<open>set_quadratic(u, v, 0)\<close> creates the edge: afterwards
  \<open>get_quadratic(u, v)\<close> and \<open>get_quadratic(v, u)\<close> return \<open>(0, true)\<close> and
  \<open>num_interactions()\<close> is one greater. The dense constructor differs: for a pair
  \<open>i < j\<close> whose two triangle entries sum to zero it creates no edge, and
  \<open>get_quadratic\<close> returns \<open>(0, false)\<close> in both directions.
\<close>

theorem set_quadratic_zero_bias:
  fixes s :: "'b::zero AdjVectorBQM" and cast :: "'c::plus \<Rightarrow> 'b"
  shows
  "(valid s \<longrightarrow> u < num_variables s \<longrightarrow> v < num_variables s \<longrightarrow> u \<noteq> v \<longrightarrow>
    get_quadratic s u v = Some (0, False) \<longrightarrow>
    (\<exists>s'. set_quadratic s u v 0 = Some (s', True) \<and>
       get_quadratic s' u v = Some (0, True) \<and>
       get_quadratic s' v u = Some (0, True) \<and>
       num_interactions s' = num_interactions s + 1)) \<and>
   (AdjVectorBQM_dense cast dense n ignore_diagonal = Some d \<longrightarrow> i < j \<longrightarrow> j < n \<longrightarrow>
    cast (dense ! (i * n + j) + dense ! (j * n + i)) = 0 \<longrightarrow>
    get_quadratic d i j = Some (0, False) \<and> get_quadratic d j i = Some (0, False))"
proof (intro conjI impI)
  assume a: "valid s" "u < num_variables s" "v < num_variables s" "u \<noteq> v"
    and absent: "get_quadratic s u v = Some (0, False)"
  then have b: "u < length (adj s)" "v < length (adj s)" by (simp_all add: num_variables_def)
  note c = a(1) b a(4)
  let ?s = "s\<lparr>adj := set_quadratic_adj (adj s) u v 0\<rparr>"
  have none: "map_of (fst (adj s ! u)) v = None"
    using absent get_quadratic_found_iff [OF c] by (cases "map_of (fst (adj s ! u)) v") simp_all
  have "set_quadratic s u v 0 = Some (?s, True)" using c by (rule set_quadratic_eq)
  moreover have "get_quadratic ?s u v = Some (0, True)" "get_quadratic ?s v u = Some (0, True)"
    using c by (simp_all add: set_quadratic_adj_get)
  moreover have "num_interactions ?s = num_interactions s + 1"
    using c none by (simp add: num_interactions_total set_quadratic_adj_total)
  ultimately show "\<exists>s'. set_quadratic s u v 0 = Some (s', True) \<and>
       get_quadratic s' u v = Some (0, True) \<and>
       get_quadratic s' v u = Some (0, True) \<and>
       num_interactions s' = num_interactions s + 1" by blast
next
  assume "AdjVectorBQM_dense cast dense n ignore_diagonal = Some d" "i < j" "j < n"
    "cast (dense ! (i * n + j) + dense ! (j * n + i)) = 0"
  then show "get_quadratic d i j = Some (0, False)" "get_quadratic d j i = Some (0, False)"
    by (rule dense_zero_sum_no_edge)+
qed

theorem set_quadratic_zero_bias_witness:
  "valid example_bqm \<and> 0 < num_variables example_bqm \<and> 2 < num_variables example_bqm \<and>
   (0::nat) \<noteq> 2 \<and> get_quadratic example_bqm 0 2 = Some (0, False) \<and>
   (\<exists>s'. set_quadratic example_bqm 0 2 0 = Some (s', True) \<and>
      get_quadratic s' 0 2 = Some (0, True) \<and>
      get_quadratic s' 2 0 = Some (0, True) \<and>
      num_interactions s' = 2) \<and>
   AdjVectorBQM_dense (\<lambda>x. x) [1, 4, - 4, 3 :: int] 2 False = Some \<lparr>adj = [([], 1), ([], 3)]\<rparr> \<and>
   (0::nat) < 1 \<and> (1::nat) < 2 \<and>
   [1, 4, - 4, 3 :: int] ! (0 * 2 + 1) + [1, 4, - 4, 3 :: int] ! (1 * 2 + 0) = 0 \<and>
   get_quadratic \<lparr>adj = [([], 1), ([], 3 :: int)]\<rparr> 0 1 = Some (0, False) \<and>
   get_quadratic \<lparr>adj = [([], 1), ([], 3 :: int)]\<rparr> 1 0 = Some (0, False)"
proof -
  have n: "0 < num_variables example_bqm" "2 < num_variables example_bqm" "(0::nat) \<noteq> 2"
    by (simp_all add: example_bqm_size)
  have e: "get_quadratic example_bqm 0 2 = Some (0, False)" "num_interactions example_bqm = 1"
    by code_simp+
  have d: "AdjVectorBQM_dense (\<lambda>x. x) [1, 4, - 4, 3 :: int] 2 False
      = Some \<lparr>adj = [([], 1), ([], 3)]\<rparr>"
    by code_simp
  have z: "[1, 4, - 4, 3 :: int] ! (0 * 2 + 1) + [1, 4, - 4, 3 :: int] ! (1 * 2 + 0) = 0"
    by simp
  note T = set_quadratic_zero_bias [of example_bqm 0 2 "\<lambda>x. x" "[1, 4, - 4, 3]" 2 False
      "\<lparr>adj = [([], 1), ([], 3)]\<rparr>" 0 1]
  from T example_bqm_valid n e(1)
  have 1: "\<exists>s'. set_quadratic example_bqm 0 2 0 = Some (s', True) \<and>
      get_quadratic s' 0 2 = Some (0, True) \<and>
      get_quadratic s' 2 0 = Some (0, True) \<and>
      num_interactions s' = num_interactions example_bqm + 1" by blast
  from T d z
  have 2: "get_quadratic \<lparr>adj = [([], 1), ([], 3 :: int)]\<rparr> 0 1 = Some (0, False) \<and>
      get_quadratic \<lparr>adj = [([], 1), ([], 3 :: int)]\<rparr> 1 0 = Some (0, False)" by simp
  from 1 e(2) have 3: "\<exists>s'. set_quadratic example_bqm 0 2 0 = Some (s', True) \<and>
      get_quadratic s' 0 2 = Some (0, True) \<and>
      get_quadratic s' 2 0 = Some (0, True) \<and>
      num_interactions s' = 2" by auto
  from 2 3 d z n e example_bqm_valid show ?thesis by simp
qed

subsection \<open>C1: the two copies of an edge agree\<close>

text \<open>
  C1. In every reachable state, for distinct variables \<open>u\<close> and \<open>v\<close> that exist,
  \<open>get_quadratic(u, v)\<close> and \<open>get_quadratic(v, u)\<close> return the same pair of bias and
  found flag. Reachable states are closed under \<open>set_quadratic\<close>, \<open>remove_interaction\<close>,
  \<open>pop_variable\<close>, \<open>add_variable\<close> and \<open>set_linear\<close>, so each of them preserves the
  property, for every pair.
\<close>

theorem symmetry_invariant:
  "reachable s \<Longrightarrow> u < num_variables s \<Longrightarrow> v < num_variables s \<Longrightarrow> u \<noteq> v \<Longrightarrow>
   (\<exists>b found. get_quadratic s u v = Some (b, found) \<and> get_quadratic s v u = Some (b, found))"
proof -
  assume r: "reachable s" and "u < num_variables s" "v < num_variables s" and ne: "u \<noteq> v"
  then have u: "u < length (adj s)" and v: "v < length (adj s)" by (simp_all add: num_variables_def)
  from r have val: "valid s" by (rule reachable_valid)
  from ne have ne': "v \<noteq> u" by simp
  show ?thesis
    unfolding get_quadratic_map_of [OF val u v ne] get_quadratic_map_of [OF val v u ne']
      valid_symmetric [OF val u v]
    by (cases "map_of (fst (adj s ! v)) u") auto
qed

theorem symmetry_invariant_witness:
  "reachable example_bqm \<and> 0 < num_variables example_bqm \<and> 1 < num_variables example_bqm \<and>
   (0::nat) \<noteq> 1 \<and>
   get_quadratic example_bqm 0 1 = Some (5, True) \<and>
   get_quadratic example_bqm 1 0 = Some (5, True)"
proof -
  have n: "0 < num_variables example_bqm" "1 < num_variables example_bqm" "(0::nat) \<noteq> 1"
    by (simp_all add: example_bqm_size)
  have e: "get_quadratic example_bqm 0 1 = Some (5, True)" by code_simp
  from symmetry_invariant [OF example_bqm_reachable n] e
  have "get_quadratic example_bqm 1 0 = Some (5, True)" by auto
  with example_bqm_reachable n e show ?thesis by simp
qed

subsection \<open>C2: neighbourhoods are sorted and have no self-loop\<close>

text \<open>
  C2. In every reachable state, the neighbourhood of every variable \<open>u\<close> is strictly
  increasing in the neighbour index, hence without duplicates, and has no entry for
  \<open>u\<close> itself.
\<close>

theorem neighborhood_well_formed:
  "reachable s \<Longrightarrow> u < num_variables s \<Longrightarrow>
   (\<exists>xs. neighborhood s u = Some xs \<and> sorted_wrt (<) (map fst xs) \<and> distinct (map fst xs) \<and>
      u \<notin> set (map fst xs))"
proof -
  assume r: "reachable s" and "u < num_variables s"
  then have u: "u < length (adj s)" by (simp add: num_variables_def)
  from r have val: "valid s" by (rule reachable_valid)
  have ns: "nsorted (fst (adj s ! u))" using val u by (rule valid_nsorted)
  have "map_of (fst (adj s ! u)) u = None" using val u by (rule valid_no_self)
  then have "u \<notin> set (map fst (fst (adj s ! u)))" by (simp add: map_of_dom_iff)
  with ns nsorted_distinct [OF ns] u show ?thesis
    by (simp add: neighborhood_def nsorted_def)
qed

theorem neighborhood_well_formed_witness:
  "reachable example_star \<and> 0 < num_variables example_star \<and>
   neighborhood example_star 0 = Some [(1, 5), (2, 4)] \<and>
   sorted_wrt (<) (map fst [(1 :: nat, 5 :: int), (2, 4)]) \<and>
   distinct (map fst [(1 :: nat, 5 :: int), (2, 4)]) \<and>
   (0::nat) \<notin> set (map fst [(1 :: nat, 5 :: int), (2, 4)]) \<and>
   AdjVectorBQM_dense (\<lambda>x. x) [1, 2, 0, 2, 3, 4, 0, 4, 5 :: int] 3 False =
     Some \<lparr>adj = [([(1, 4)], 1), ([(0, 4), (2, 8)], 3), ([(1, 8)], 5)]\<rparr> \<and>
   reachable \<lparr>adj = [([(1, 4)], 1), ([(0, 4), (2, 8)], 3), ([(1, 8)], 5 :: int)]\<rparr> \<and>
   1 < num_variables \<lparr>adj = [([(1, 4)], 1), ([(0, 4), (2, 8)], 3), ([(1, 8)], 5 :: int)]\<rparr> \<and>
   neighborhood \<lparr>adj = [([(1, 4)], 1), ([(0, 4), (2, 8)], 3), ([(1, 8)], 5 :: int)]\<rparr> 1 =
     Some [(0, 4), (2, 8)] \<and>
   sorted_wrt (<) (map fst [(0 :: nat, 4 :: int), (2, 8)]) \<and>
   distinct (map fst [(0 :: nat, 4 :: int), (2, 8)]) \<and>
   (1::nat) \<notin> set (map fst [(0 :: nat, 4 :: int), (2, 8)])"
proof -
  let ?d = "\<lparr>adj = [([(1, 4)], 1), ([(0, 4), (2, 8)], 3), ([(1, 8)], 5 :: int)]\<rparr>"
  have n: "0 < num_variables example_star" by (simp add: example_star_size)
  have e: "neighborhood example_star 0 = Some [(1, 5), (2, 4)]" by code_simp
  have d: "AdjVectorBQM_dense (\<lambda>x. x) [1, 2, 0, 2, 3, 4, 0, 4, 5 :: int] 3 False = Some ?d"
    by code_simp
  then have rd: "reachable ?d" by (rule by_dense)
  have nd: "1 < num_variables ?d" by (simp add: num_variables_def)
  have ed: "neighborhood ?d 1 = Some [(0, 4), (2, 8)]" by code_simp
  from neighborhood_well_formed [OF example_star_reachable n] e
  have 1: "sorted_wrt (<) (map fst [(1 :: nat, 5 :: int), (2, 4)]) \<and>
      distinct (map fst [(1 :: nat, 5 :: int), (2, 4)]) \<and>
      (0::nat) \<notin> set (map fst [(1 :: nat, 5 :: int), (2, 4)])" by simp
  from neighborhood_well_formed [OF rd nd] ed
  have 2: "sorted_wrt (<) (map fst [(0 :: nat, 4 :: int), (2, 8)]) \<and>
      distinct (map fst [(0 :: nat, 4 :: int), (2, 8)]) \<and>
      (1::nat) \<notin> set (map fst [(0 :: nat, 4 :: int), (2, 8)])" by simp
  from 1 2 example_star_reachable n e d rd nd ed show ?thesis by blast
qed

subsection \<open>C8: degrees and interactions\<close>

text \<open>
  C8. In every reachable state, twice \<open>num_interactions()\<close> is the sum of \<open>degree(v)\<close>
  over all variables: that sum is even, so the halving loses nothing.
\<close>

theorem degree_interaction_consistency:
  "reachable s \<Longrightarrow> num_interactions s * 2 = sum_of_degrees s"
proof -
  assume "reachable s"
  then have "valid s" by (rule reachable_valid)
  then have "even (total_degree s)" by (rule valid_total_degree_even)
  then show ?thesis by (simp add: num_interactions_total sum_of_degrees_total)
qed

theorem degree_interaction_consistency_witness:
  "reachable example_bqm \<and> num_interactions example_bqm * 2 = 2 \<and>
   sum_of_degrees example_bqm = 2"
proof -
  have "sum_of_degrees example_bqm = 2" by code_simp
  with degree_interaction_consistency [OF example_bqm_reachable] example_bqm_reachable
  show ?thesis by simp
qed

end
